theory Spec2Isabelle
  imports Complex_Main "HOL-Library.Multiset" "HOL-Library.Product_Lexorder"
begin

section \<open>Python values and exceptions\<close>

text \<open>
  The program is Python 2 with numpy.  Spike times are floats; they are modelled as
  exact reals, so only the order and the exact arithmetic of times is covered, not
  rounding.  Sample indices are Python ints (numpy int32 in the flat arrays; the
  conversion is assumed not to overflow).  Every exception the modelled code can raise
  is a value of \<open>py_error\<close>; a function that can raise returns a \<open>result\<close>.
\<close>

datatype py_error = TypeError | ValueError | IndexError | KeyError | ZeroDivisionError

type_synonym 'a result = "py_error + 'a"

definition bind_result :: "'a result \<Rightarrow> ('a \<Rightarrow> 'b result) \<Rightarrow> 'b result" where
  "bind_result r f = (case r of Inl e \<Rightarrow> Inl e | Inr v \<Rightarrow> f v)"

text \<open>A loop that builds a list and stops at the first exception.\<close>

fun map_result :: "('a \<Rightarrow> 'b result) \<Rightarrow> 'a list \<Rightarrow> 'b list result" where
  "map_result f [] = Inr []"
| "map_result f (x # xs) =
     bind_result (f x) (\<lambda>y. bind_result (map_result f xs) (\<lambda>ys. Inr (y # ys)))"

text \<open>A loop over a mutable state that stops at the first exception.\<close>

fun fold_result :: "('a \<Rightarrow> 's \<Rightarrow> 's result) \<Rightarrow> 'a list \<Rightarrow> 's \<Rightarrow> 's result" where
  "fold_result f [] s = Inr s"
| "fold_result f (x # xs) s = bind_result (f x s) (fold_result f xs)"

text \<open>Python's \<open>max\<close> of a list: \<open>ValueError\<close> on the empty list.\<close>

fun py_max :: "'a::linorder list \<Rightarrow> 'a result" where
  "py_max [] = Inl ValueError"
| "py_max (x # xs) = Inr (fold max xs x)"

text \<open>A slice \<open>xs[a:b]\<close> with non-negative bounds; out-of-range bounds are clipped.\<close>

definition py_slice :: "nat \<Rightarrow> nat \<Rightarrow> 'a list \<Rightarrow> 'a list" where
  "py_slice a b xs = take (b - a) (drop a xs)"

subsection \<open>The \<open>bisect\<close> module\<close>

text \<open>
  The two binary searches of Python's \<open>bisect\<close>, as the loops of the standard library:
  \<^verbatim>\<open>while lo < hi: mid = (lo+hi)//2; if a[mid] < x: lo = mid+1 else: hi = mid\<close> and
  \<^verbatim>\<open>while lo < hi: mid = (lo+hi)//2; if x < a[mid]: hi = mid else: lo = mid+1\<close>.
  They are defined on every list, sorted or not.
\<close>

function bisect_left :: "'a::linorder list \<Rightarrow> 'a \<Rightarrow> nat \<Rightarrow> nat \<Rightarrow> nat" where
  "bisect_left a x lo hi =
     (if lo < hi
      then (let mid = (lo + hi) div 2
            in if a ! mid < x then bisect_left a x (mid + 1) hi
               else bisect_left a x lo mid)
      else lo)"
  by pat_completeness auto
termination
  by (relation "measure (\<lambda>(a, x, lo, hi). hi - lo)") auto

function bisect_right :: "'a::linorder list \<Rightarrow> 'a \<Rightarrow> nat \<Rightarrow> nat \<Rightarrow> nat" where
  "bisect_right a x lo hi =
     (if lo < hi
      then (let mid = (lo + hi) div 2
            in if x < a ! mid then bisect_right a x lo mid
               else bisect_right a x (mid + 1) hi)
      else lo)"
  by pat_completeness auto
termination
  by (relation "measure (\<lambda>(a, x, lo, hi). hi - lo)") auto

declare bisect_left.simps [simp del]
declare bisect_right.simps [simp del]

subsection \<open>Indirect sorts of numpy\<close>

text \<open>
  \<open>np.argsort(a)\<close> returns the indices that sort \<open>a\<close>; \<open>np.lexsort((k, t))\<close> returns the
  indices that sort by the \<^emph>\<open>last\<close> key \<open>t\<close> first and by \<open>k\<close> among equal \<open>t\<close>.  Both are
  modelled as stable sorts of the index list.  (numpy's default \<open>argsort\<close> does not
  promise an order among equal keys; the theorems below that speak about ties say
  ``a spike of that time'', which holds for every order of ties.)
\<close>

definition argsort :: "'a::linorder list \<Rightarrow> nat list" where
  "argsort a = sort_key (\<lambda>i. a ! i) [0..<length a]"

definition lexsort :: "'b::linorder list \<Rightarrow> 'a::linorder list \<Rightarrow> nat list" where
  "lexsort k t = sort_key (\<lambda>i. (t ! i, k ! i)) [0..<length t]"

section \<open>NetworkInstance: flattening, matching, temporal splitting\<close>

text \<open>
  \<open>flaten(times, indices, sort_by_sample)\<close>.  \<open>reduce\<close> without an initial value raises
  \<open>TypeError\<close> on an empty list of units.  The double loop reads \<open>indices[i][j]\<close> for
  every \<open>times[i][j]\<close>, so a missing index raises \<open>IndexError\<close>; a unit without spikes
  never reads \<open>indices[i]\<close>.
\<close>

fun flaten_unit :: "nat \<Rightarrow> real list \<Rightarrow> int list \<Rightarrow> (real \<times> int \<times> nat) list result" where
  "flaten_unit i [] ks = Inr []"
| "flaten_unit i (t # ts) [] = Inl IndexError"
| "flaten_unit i (t # ts) (k # ks) =
     bind_result (flaten_unit i ts ks) (\<lambda>r. Inr ((t, k, i) # r))"

fun flaten_units :: "nat \<Rightarrow> real list list \<Rightarrow> int list list \<Rightarrow> (real \<times> int \<times> nat) list result" where
  "flaten_units i [] kss = Inr []"
| "flaten_units i (ts # tss) [] =
     (if ts = [] then flaten_units (Suc i) tss [] else Inl IndexError)"
| "flaten_units i (ts # tss) (ks # kss) =
     bind_result (flaten_unit i ts ks) (\<lambda>r.
     bind_result (flaten_units (Suc i) tss kss) (\<lambda>rs. Inr (r @ rs)))"

definition flaten ::
  "real list list \<Rightarrow> int list list \<Rightarrow> bool \<Rightarrow> (real list \<times> int list \<times> nat list) result" where
  "flaten tms indices sort_by_sample =
     (if tms = [] then Inl TypeError
      else bind_result (flaten_units 0 tms indices) (\<lambda>F.
        let tF = map fst F;
            kF = map (\<lambda>e. fst (snd e)) F;
            nF = map (\<lambda>e. snd (snd e)) F;
            I = (if sort_by_sample then lexsort kF tF else argsort tF)
        in Inr (map (\<lambda>i. tF ! i) I, map (\<lambda>i. kF ! i) I, map (\<lambda>i. nF ! i) I)))"

text \<open>
  The simulator's result for one population is a dictionary; only its entry \<open>"spikes"\<close>
  is read: a list with one spike-time list per neuron (\<open>None\<close> when the key is absent).
  \<open>output[i]["spikes"][0]\<close> is the spike train of the population's first neuron.
\<close>

type_synonym population_output = "real list list option"

definition output_spikes :: "population_output \<Rightarrow> real list result" where
  "output_spikes p =
     (case p of None \<Rightarrow> Inl KeyError | Some [] \<Rightarrow> Inl IndexError | Some (x # _) \<Rightarrow> Inr x)"

text \<open>The body of the inner loop of \<open>match_static\<close>: the sample index of one output spike.\<close>

definition match_index :: "real list \<Rightarrow> int list \<Rightarrow> real \<Rightarrow> int" where
  "match_index tIn kIn t =
     (let idx = bisect_left tIn t 0 (length tIn);
          idx = (if idx > 0 then idx - 1 else idx)
      in if idx < length tIn then kIn ! idx else 0)"

text \<open>
  \<open>match_static(input_times, input_indices, output)\<close>.  The output populations are the
  entries of \<open>output\<close> after the first \<open>len(input_times)\<close> ones.
\<close>

definition match_static ::
  "real list list \<Rightarrow> int list list \<Rightarrow> population_output list
     \<Rightarrow> (real list list \<times> int list list) result" where
  "match_static input_times input_indices output =
     bind_result (flaten input_times input_indices False) (\<lambda>(tIn, kIn, nIn).
     bind_result (map_result output_spikes (drop (length input_times) output)) (\<lambda>output_times.
       Inr (output_times, map (map (match_index tIn kIn)) output_times)))"

text \<open>
  \<open>split(times, indices, k0, k1)\<close>: keeps the spikes whose sample index lies in
  \<open>[k0, k1)\<close> and subtracts \<open>k0\<close> from the kept indices.  \<open>times_part\<close> has one list per
  entry of \<open>times\<close>, \<open>indices_part\<close> one per entry of \<open>indices\<close>.
\<close>

fun split_unit :: "real list \<Rightarrow> int list \<Rightarrow> int \<Rightarrow> int \<Rightarrow> (real list \<times> int list) result" where
  "split_unit [] ks k0 k1 = Inr ([], [])"
| "split_unit (t # ts) [] k0 k1 = Inl IndexError"
| "split_unit (t # ts) (k # ks) k0 k1 =
     bind_result (split_unit ts ks k0 k1) (\<lambda>(tp, kp).
       if k \<ge> k0 \<and> k < k1 then Inr (t # tp, (k - k0) # kp) else Inr (tp, kp))"

fun split_part ::
  "real list list \<Rightarrow> int list list \<Rightarrow> int \<Rightarrow> int \<Rightarrow> (real list list \<times> int list list) result" where
  "split_part [] kss k0 k1 = Inr ([], map (\<lambda>_. []) kss)"
| "split_part (ts # tss) [] k0 k1 =
     (if ts = []
      then bind_result (split_part tss [] k0 k1) (\<lambda>(tps, kps). Inr ([] # tps, kps))
      else Inl IndexError)"
| "split_part (ts # tss) (ks # kss) k0 k1 =
     bind_result (split_unit ts ks k0 k1) (\<lambda>(tp, kp).
     bind_result (split_part tss kss k0 k1) (\<lambda>(tps, kps). Inr (tp # tps, kp # kps)))"

record network_analysis =
  na_input_times :: "real list list"
  na_input_indices :: "int list list"
  na_output_times :: "real list list"
  na_output_indices :: "int list list"

text \<open>The loop of \<open>build_analysis_static\<close> over the cut points, \<open>k0\<close> being the last one.\<close>

fun analysis_parts ::
  "real list list \<Rightarrow> int list list \<Rightarrow> real list list \<Rightarrow> int list list \<Rightarrow> int \<Rightarrow> int list
     \<Rightarrow> network_analysis list result" where
  "analysis_parts it ii ot oi k0 [] = Inr []"
| "analysis_parts it ii ot oi k0 (k # ks) =
     bind_result (split_part it ii k0 k) (\<lambda>(itp, iip).
     bind_result (split_part ot oi k0 k) (\<lambda>(otp, oip).
     bind_result (analysis_parts it ii ot oi k ks) (\<lambda>rest.
       Inr (\<lparr>na_input_times = itp, na_input_indices = iip,
             na_output_times = otp, na_output_indices = oip\<rparr> # rest))))"

text \<open>
  \<open>build_analysis_static\<close>.  Without a split descriptor the single cut point is
  \<open>max(map(max, input_indices)) + 1\<close>, which raises \<open>ValueError\<close> when a unit has no
  spike or when there is no unit.
\<close>

definition cut_points :: "int list list \<Rightarrow> int list \<Rightarrow> int list result" where
  "cut_points input_indices input_split =
     (if input_split = []
      then bind_result (map_result py_max input_indices) (\<lambda>ms.
           bind_result (py_max ms) (\<lambda>mx. Inr [mx + 1]))
      else Inr input_split)"

definition build_analysis_static ::
  "real list list \<Rightarrow> int list list \<Rightarrow> population_output list \<Rightarrow> int list
     \<Rightarrow> network_analysis list result" where
  "build_analysis_static input_times input_indices output input_split =
     bind_result (match_static input_times input_indices output) (\<lambda>(output_times, output_indices).
     bind_result (cut_points input_indices input_split) (\<lambda>cuts.
       analysis_parts input_times input_indices output_times output_indices 0 cuts))"

section \<open>NetworkInstance and NetworkPool: spatial multiplexing\<close>

text \<open>
  A connection is \<open>((source population, neuron), (target population, neuron), weight,
  delay)\<close>.  The population descriptors themselves belong to the simulator and stay
  abstract (\<open>'p\<close>).
\<close>

type_synonym connection = "(nat \<times> nat) \<times> (nat \<times> nat) \<times> real \<times> real"

record 'p network_instance =
  ni_populations :: "'p list"
  ni_connections :: "connection list"
  ni_input_times :: "real list list"
  ni_input_indices :: "int list list"
  ni_input_split :: "int list"

definition build_analysis :: "'p network_instance \<Rightarrow> population_output list \<Rightarrow> network_analysis list result" where
  "build_analysis net output =
     build_analysis_static (ni_input_times net) (ni_input_indices net) output (ni_input_split net)"

record spatial_split =
  ss_population :: nat
  ss_input :: nat

record 'p network_pool =
  np_populations :: "'p list"
  np_connections :: "connection list"
  np_input_times :: "real list list"
  np_input_indices :: "int list list"
  np_input_split :: "int list list"
  np_spatial_split :: "spatial_split list"

text \<open>\<open>NetworkPool()\<close> with the default arguments: a pool without networks.\<close>

definition network_pool_init :: "'p network_pool" where
  "network_pool_init =
     \<lparr>np_populations = [], np_connections = [], np_input_times = [], np_input_indices = [],
      np_input_split = [], np_spatial_split = []\<rparr>"

text \<open>
  \<open>add_network\<close> appends the network and records where it ends; the population indices
  of the new connections are moved by the number of populations already in the pool.
\<close>

definition add_network :: "'p network_pool \<Rightarrow> 'p network_instance \<Rightarrow> 'p network_pool" where
  "add_network pool network =
     (let nP0 = length (np_populations pool);
          populations = np_populations pool @ ni_populations network;
          input_times = np_input_times pool @ ni_input_times network
      in \<lparr>np_populations = populations,
          np_connections = np_connections pool @
            map (\<lambda>(c0, c1, w, d). ((fst c0 + nP0, snd c0), (fst c1 + nP0, snd c1), w, d))
                (ni_connections network),
          np_input_times = input_times,
          np_input_indices = np_input_indices pool @ ni_input_indices network,
          np_input_split = np_input_split pool @ [ni_input_split network],
          np_spatial_split = np_spatial_split pool @
            [\<lparr>ss_population = length populations, ss_input = length input_times\<rparr>]\<rparr>)"

definition add_networks :: "'p network_pool \<Rightarrow> 'p network_instance list \<Rightarrow> 'p network_pool" where
  "add_networks pool networks = fold (\<lambda>network p. add_network p network) networks pool"

text \<open>
  The loop of \<open>NetworkPool.build_analysis\<close> over the spatial splits; \<open>i\<close> counts them
  and \<open>last_split\<close> is the previous descriptor.  Every stored \<open>input_split\<close> is a list
  here, so the \<open>isinstance\<close> test of the source always succeeds.
\<close>

fun pool_analysis_loop ::
  "'p network_pool \<Rightarrow> population_output list \<Rightarrow> nat \<Rightarrow> spatial_split \<Rightarrow> spatial_split list
     \<Rightarrow> network_analysis list result" where
  "pool_analysis_loop pool output i last_split [] = Inr []"
| "pool_analysis_loop pool output i last_split (split # rest) =
     (let input_times = py_slice (ss_input last_split) (ss_input split) (np_input_times pool);
          input_indices = py_slice (ss_input last_split) (ss_input split) (np_input_indices pool);
          output_part = py_slice (ss_population last_split) (ss_population split) output;
          input_split = (if i < length (np_input_split pool) then np_input_split pool ! i else [])
      in bind_result (build_analysis_static input_times input_indices output_part input_split) (\<lambda>r.
         bind_result (pool_analysis_loop pool output (Suc i) split rest) (\<lambda>rs. Inr (r @ rs))))"

definition pool_build_analysis :: "'p network_pool \<Rightarrow> population_output list \<Rightarrow> network_analysis list result" where
  "pool_build_analysis pool output =
     pool_analysis_loop pool output 0 \<lparr>ss_population = 0, ss_input = 0\<rparr> (np_spatial_split pool)"

section \<open>NetworkAnalysis: latencies and the output matrix\<close>

text \<open>A latency is a float or \<open>np.inf\<close>.\<close>

datatype latency = Latency real | Infinite

text \<open>
  \<open>calculate_latencies\<close>.  \<open>np.max\<close> of an empty array raises \<open>ValueError\<close>, and so does
  \<open>np.zeros\<close> of a negative length.  The \<open>or\<close> chain of the source is evaluated left to
  right, so \<open>kIn[iInK]\<close> is only read for \<open>iInK \<ge> 0\<close>.
\<close>

definition sample_latency ::
  "real list \<Rightarrow> int list \<Rightarrow> real list \<Rightarrow> int list \<Rightarrow> int \<Rightarrow> latency" where
  "sample_latency tIn kIn tOut kOut k =
     (let iInK = int (bisect_right kIn k 0 (length kIn)) - 1;
          iOutK = int (bisect_right kOut k 0 (length kOut)) - 1
      in if iInK < 0 \<or> iOutK < 0 \<or> kIn ! nat iInK \<noteq> k \<or> kOut ! nat iOutK \<noteq> k
         then Infinite
         else Latency (tOut ! nat iOutK - tIn ! nat iInK))"

definition calculate_latencies :: "network_analysis \<Rightarrow> latency list result" where
  "calculate_latencies a =
     bind_result (flaten (na_input_times a) (na_input_indices a) True) (\<lambda>(tIn, kIn, nIn).
     bind_result (flaten (na_output_times a) (na_output_indices a) True) (\<lambda>(tOut, kOut, nOut).
     bind_result (py_max kIn) (\<lambda>mx.
       let N = mx + 1
       in if N < 0 then Inl ValueError
          else Inr (map (sample_latency tIn kIn tOut kOut) [0..N - 1]))))"

text \<open>
  \<open>calculate_output_matrix\<close> with multiplicity \<open>s\<close>.  Row \<open>k\<close> counts, for the flat
  positions between \<open>bisect_left(kOut, k)\<close> and \<open>bisect_right(kOut, k)\<close>, the spikes per
  column \<open>nOut[i] // s\<close>; a column outside the matrix raises \<open>IndexError\<close>.  The matrix is
  divided by \<open>float(output_burst_size)\<close> at the end (numpy yields \<open>inf\<close> or \<open>nan\<close> for a
  burst size of zero, which the model does not cover).
\<close>

definition output_row :: "int list \<Rightarrow> nat list \<Rightarrow> nat \<Rightarrow> nat \<Rightarrow> int \<Rightarrow> real list result" where
  "output_row kOut nOut s n k =
     (let i0 = bisect_left kOut k 0 (length kOut);
          i1 = bisect_right kOut k 0 (length kOut)
      in fold_result
           (\<lambda>i row. let c = nOut ! i div s
                    in if c < n then Inr (row[c := row ! c + 1]) else Inl IndexError)
           [i0..<i1] (replicate n 0))"

definition calculate_output_matrix ::
  "network_analysis \<Rightarrow> nat \<Rightarrow> nat \<Rightarrow> real list list result" where
  "calculate_output_matrix a s output_burst_size =
     bind_result (flaten (na_output_times a) (na_output_indices a) True) (\<lambda>(tOut, kOut, nOut).
     bind_result (map_result (\<lambda>ks. py_max (ks @ [0])) (na_input_indices a)) (\<lambda>ms.
     bind_result (py_max ms) (\<lambda>mx.
       if s = 0 then Inl ZeroDivisionError
       else let N = mx + 1;
                n = length (na_output_indices a) div s
            in bind_result (map_result (output_row kOut nOut s n) [0..N - 1]) (\<lambda>res.
                 Inr (map (map (\<lambda>c. c / real output_burst_size)) res)))))"

section \<open>InputParameters: spike trains of one burst\<close>

record input_parameters =
  burst_size :: nat
  time_window :: real
  isi :: real
  sigma_t :: real
  sigma_t_offs :: real

text \<open>The defaults of the constructor \<open>InputParameters()\<close>.\<close>

definition input_parameters_default :: input_parameters where
  "input_parameters_default =
     \<lparr>burst_size = 1, time_window = 100, isi = 1, sigma_t = 0, sigma_t_offs = 0\<rparr>"

text \<open>
  The state of numpy's global generator is modelled by the standard normal draws it
  will still produce, in order; \<open>np.random.normal(loc, scale)\<close> takes the next draw
  \<open>z\<close> and returns \<open>loc + scale * z\<close>.
\<close>

type_synonym rng_state = "nat \<Rightarrow> real"

definition normal :: "real \<Rightarrow> real \<Rightarrow> rng_state \<Rightarrow> real \<times> rng_state" where
  "normal loc scale g = (loc + scale * g 0, \<lambda>n. g (Suc n))"

text \<open>\<open>np.min\<close> of an array: \<open>ValueError\<close> on the empty array.\<close>

fun np_min :: "real list \<Rightarrow> real result" where
  "np_min [] = Inl ValueError"
| "np_min (x # xs) = Inr (fold min xs x)"

text \<open>The loop of \<open>build_spike_train\<close> over the spikes of the burst.\<close>

fun spike_train_loop :: "input_parameters \<Rightarrow> real \<Rightarrow> nat list \<Rightarrow> rng_state \<Rightarrow> real list \<times> rng_state" where
  "spike_train_loop p offs [] g = ([], g)"
| "spike_train_loop p offs (i # is) g =
     (let (jitter, g1) = (if sigma_t p > 0 then normal 0 (sigma_t p) g else (0, g));
          (rest, g2) = spike_train_loop p offs is g1
      in ((offs + real i * isi p + jitter) # rest, g2))"

definition build_spike_train :: "input_parameters \<Rightarrow> real \<Rightarrow> rng_state \<Rightarrow> real list \<times> rng_state" where
  "build_spike_train p offs g =
     (let (offs1, g1) = (if sigma_t_offs p > 0 then normal offs (sigma_t_offs p) g else (offs, g));
          (res, g2) = spike_train_loop p offs1 [0..<burst_size p] g1
      in (sort res, g2))"

section \<open>NetworkBuilder\<close>

text \<open>
  Modelled from the spec: the constructor of the class \<open>BiNAM\<close> of the module \<open>binam\<close>,
  which is not among the sources.  The weight matrix has \<open>m\<close> rows and \<open>n\<close> columns and is
  created empty (all zero).
\<close>

type_synonym binam = "nat list list"

definition BiNAM :: "nat \<Rightarrow> nat \<Rightarrow> binam" where
  "BiNAM m n = replicate m (replicate n 0)"

text \<open>
  Modelled from the spec: \<open>BiNAM.train(x, y)\<close> of the module \<open>binam\<close>, which is not among the
  sources.  It adds one sample pair by the elementwise maximum of the weight matrix with
  the outer product of \<open>x\<close> and \<open>y\<close>.
\<close>

definition train :: "binam \<Rightarrow> nat list \<Rightarrow> nat list \<Rightarrow> binam" where
  "train W x y = map2 (\<lambda>xi row. map2 (\<lambda>yj w. max w (xi * yj)) y row) x W"

text \<open>
  The builder holds the two data matrices (\<open>N\<close> rows each; numpy arrays, so every row of
  \<open>mat_in\<close> has \<open>m\<close> entries and every row of \<open>mat_out\<close> has \<open>n\<close>), their dimensions,
  the cached memory (\<open>None\<close> before the first training) and \<open>last_k\<close>.
\<close>

record network_builder =
  nb_N :: nat
  nb_m :: nat
  nb_n :: nat
  mat_in :: "nat list list"
  mat_out :: "nat list list"
  mem :: "binam option"
  last_k :: nat

text \<open>The constructor; the assertion on the row counts is \<open>AssertionError\<close>.\<close>

definition network_builder_init :: "nat list list \<Rightarrow> nat list list \<Rightarrow> nat \<Rightarrow> nat \<Rightarrow> network_builder option" where
  "network_builder_init X Y m n =
     (if length X = length Y
      then Some \<lparr>nb_N = length X, nb_m = m, nb_n = n, mat_in = X, mat_out = Y,
                 mem = None, last_k = 0\<rparr>
      else None)"

text \<open>\<open>if k < 0 or k > self.N: k = self.N\<close>\<close>

definition clamp_k :: "network_builder \<Rightarrow> int \<Rightarrow> nat" where
  "clamp_k b k = (if k < 0 \<or> k > int (nb_N b) then nb_N b else nat k)"

text \<open>
  \<open>build_topology\<close>: the training of the cached memory and the connection list.  The
  populations handed to the simulator are left out; the weights are those of
  \<open>draw_weight\<close> without noise (\<open>sigma_w \<le> 0\<close>), that is \<open>w\<close>.
\<close>

definition build_topology ::
  "network_builder \<Rightarrow> int \<Rightarrow> nat \<Rightarrow> real \<Rightarrow> network_builder \<times> connection list" where
  "build_topology b k s w =
     (let k = clamp_k b k;
          mem0 = (case mem b of None \<Rightarrow> BiNAM (nb_m b) (nb_n b)
                  | Some W \<Rightarrow> if last_k b > k then BiNAM (nb_m b) (nb_n b) else W);
          mem1 = fold (\<lambda>l W. train W (mat_in b ! l) (mat_out b ! l)) [last_k b..<k] mem0;
          connections = concat (map (\<lambda>i. concat (map (\<lambda>j.
              if mem1 ! i ! j \<noteq> 0
              then concat (map (\<lambda>k. map (\<lambda>l.
                     ((i * s + k, 0), (nb_m b * s + j * s + l, 0), w, 0)) [0..<s]) [0..<s])
              else []) [0..<nb_n b])) [0..<nb_m b])
      in (b\<lparr>mem := Some mem1, last_k := k\<rparr>, connections))"

text \<open>
  \<open>build_input\<close>.  The state of the four nested loops: the rows of \<open>T\<close> and \<open>K\<close> that are
  filled so far (row \<open>i * s + j\<close> holds \<open>N[i]\<close> entries, each write appends \<open>b\<close> of them;
  the matrix is allocated wide enough for all of them), the block start \<open>t\<close>, the sample
  counter \<open>sIdx\<close>, \<open>min_t\<close> (\<open>None\<close> is \<open>np.inf\<close>) and the random generator.
\<close>

record encoder_state =
  enc_T :: "real list list"
  enc_K :: "int list list"
  enc_t :: real
  enc_sIdx :: int
  enc_min_t :: "real option"
  enc_rng :: rng_state

text \<open>The body of the loop over \<open>j\<close>, for the row \<open>x = i * s + j\<close>.\<close>

definition emit_train :: "input_parameters \<Rightarrow> nat \<Rightarrow> encoder_state \<Rightarrow> encoder_state result" where
  "emit_train p x st =
     (let (train, g) = build_spike_train p (enc_t st) (enc_rng st)
      in bind_result (np_min train) (\<lambda>mn.
           Inr (st\<lparr>enc_T := (enc_T st)[x := enc_T st ! x @ train],
                   enc_K := (enc_K st)[x := enc_K st ! x @ replicate (burst_size p) (enc_sIdx st)],
                   enc_min_t := Some (case enc_min_t st of None \<Rightarrow> mn | Some mt \<Rightarrow> min mt mn),
                   enc_rng := g\<rparr>)))"

text \<open>The body of the loop over the input bits \<open>i\<close> of sample \<open>l\<close>.\<close>

definition encode_bit ::
  "nat list list \<Rightarrow> nat \<Rightarrow> input_parameters \<Rightarrow> nat \<Rightarrow> nat \<Rightarrow> encoder_state \<Rightarrow> encoder_state result" where
  "encode_bit X s p l i st =
     (if X ! l ! i \<noteq> 0 then fold_result (\<lambda>j. emit_train p (i * s + j)) [0..<s] st else Inr st)"

text \<open>The body of the loop over the samples \<open>l\<close>.\<close>

definition encode_sample ::
  "nat list list \<Rightarrow> nat \<Rightarrow> nat \<Rightarrow> input_parameters \<Rightarrow> nat \<Rightarrow> encoder_state \<Rightarrow> encoder_state result" where
  "encode_sample X m s p l st =
     bind_result (fold_result (encode_bit X s p l) [0..<m] st) (\<lambda>st'.
       Inr (st'\<lparr>enc_sIdx := enc_sIdx st' + 1, enc_t := enc_t st' + time_window p\<rparr>))"

text \<open>The body of the loop over the parameter sets.\<close>

definition encode_params ::
  "nat list list \<Rightarrow> nat \<Rightarrow> nat \<Rightarrow> nat \<Rightarrow> real \<Rightarrow> input_parameters \<Rightarrow> encoder_state
     \<Rightarrow> encoder_state result" where
  "encode_params X m s k input_params_delay p st =
     bind_result (fold_result (encode_sample X m s p) [0..<k] st) (\<lambda>st'.
       Inr (st'\<lparr>enc_t := enc_t st' + time_window p * input_params_delay\<rparr>))"

text \<open>
  \<open>T = T - min_t + time_offs\<close>.  When \<open>min_t\<close> is still \<open>np.inf\<close> no spike was written, all
  rows are empty and nothing is shifted.
\<close>

definition shift_time :: "real option \<Rightarrow> real \<Rightarrow> real \<Rightarrow> real" where
  "shift_time min_t time_offs v = (case min_t of None \<Rightarrow> v | Some mt \<Rightarrow> v - mt + time_offs)"

text \<open>
  \<open>build_input(k, time_offs, topology_params, input_params, input_params_delay)\<close> with the
  multiplicity \<open>s\<close> of the topology parameters and \<open>input_params\<close> as a list;
  \<open>encode_loops\<close> are its nested loops, started on empty rows.  It returns
  \<open>(input_times, input_indices, input_split)\<close> and the new state of the generator.
  \<open>np.max(np.sum(X, 0))\<close> raises \<open>ValueError\<close> for a matrix without columns, and
  \<open>range(k, k * (len(input_params) + 1), k)\<close> raises \<open>ValueError\<close> for \<open>k = 0\<close>.
\<close>

definition encode_loops ::
  "network_builder \<Rightarrow> nat \<Rightarrow> nat \<Rightarrow> input_parameters list \<Rightarrow> real \<Rightarrow> rng_state
     \<Rightarrow> encoder_state result" where
  "encode_loops b k s input_params input_params_delay g =
     fold_result (encode_params (mat_in b) (nb_m b) s k input_params_delay) input_params
       \<lparr>enc_T = replicate (s * nb_m b) [], enc_K = replicate (s * nb_m b) [],
        enc_t = 0, enc_sIdx = 0, enc_min_t = None, enc_rng = g\<rparr>"

definition build_input ::
  "network_builder \<Rightarrow> int \<Rightarrow> real \<Rightarrow> nat \<Rightarrow> input_parameters list \<Rightarrow> real \<Rightarrow> rng_state
     \<Rightarrow> ((real list list \<times> int list list \<times> int list) \<times> rng_state) result" where
  "build_input b k time_offs s input_params input_params_delay g =
     (let k = clamp_k b k
      in if input_params \<noteq> [] \<and> nb_m b = 0 then Inl ValueError
         else bind_result (encode_loops b k s input_params input_params_delay g) (\<lambda>st.
           let T = map (map (shift_time (enc_min_t st) time_offs)) (enc_T st);
               input_times = map (\<lambda>row. map (\<lambda>i. row ! i) (argsort row)) T;
               input_indices = map2 (\<lambda>row krow. map (\<lambda>i. krow ! i) (argsort row)) T (enc_K st)
           in if k = 0 then Inl ValueError
              else Inr ((input_times, input_indices,
                         map (\<lambda>c. int (c * k)) [1..<length input_params + 1]), enc_rng st)))"

section \<open>Scoped seeding of the random generator\<close>

text \<open>
  \<open>initialize_seed(seed, seq)\<close> and \<open>finalize_seed(old_state)\<close> of \<open>utils\<close>.  The global
  generator state is threaded explicitly: both functions take the current state and
  return the new one; \<open>initialize_seed\<close> also returns its Python result.  \<open>np_seed\<close> is
  \<open>np.random.seed\<close>, the state that numpy derives from an integer seed.
\<close>

definition initialize_seed :: "(int \<Rightarrow> 'st) \<Rightarrow> int option \<Rightarrow> int \<Rightarrow> 'st \<Rightarrow> 'st option \<times> 'st" where
  "initialize_seed np_seed seed seq st =
     (case seed of None \<Rightarrow> (None, st)
      | Some sd \<Rightarrow> (Some st, np_seed ((sd * (seq + 1)) mod 2 ^ 30)))"

definition finalize_seed :: "'st option \<Rightarrow> 'st \<Rightarrow> 'st" where
  "finalize_seed old_state st = (case old_state of None \<Rightarrow> st | Some old \<Rightarrow> old)"

section \<open>Vocabulary of the specification\<close>

text \<open>
  The spikes of a collection of spike trains, as pairs of a time and a sample index, and
  the collections whose time and index lists are parallel.
\<close>

definition spikes :: "real list list \<Rightarrow> int list list \<Rightarrow> (real \<times> int) list" where
  "spikes tss kss = concat (map2 zip tss kss)"

definition parallel :: "'a list list \<Rightarrow> 'b list list \<Rightarrow> bool" where
  "parallel tss kss = list_all2 (\<lambda>ts ks. length ts = length ks) tss kss"

text \<open>
  \<open>k\<close> is the sample index of a latest spike strictly before \<open>t\<close>; of a latest spike at or
  before \<open>t\<close>; of an earliest spike.
\<close>

definition most_recent_before :: "(real \<times> int) list \<Rightarrow> real \<Rightarrow> int \<Rightarrow> bool" where
  "most_recent_before sp t k =
     (\<exists>(t0, k0)\<in>set sp. t0 < t \<and> (\<forall>(t1, k1)\<in>set sp. t1 < t \<longrightarrow> t1 \<le> t0) \<and> k = k0)"

definition most_recent_at_or_before :: "(real \<times> int) list \<Rightarrow> real \<Rightarrow> int \<Rightarrow> bool" where
  "most_recent_at_or_before sp t k =
     (\<exists>(t0, k0)\<in>set sp. t0 \<le> t \<and> (\<forall>(t1, k1)\<in>set sp. t1 \<le> t \<longrightarrow> t1 \<le> t0) \<and> k = k0)"

definition earliest :: "(real \<times> int) list \<Rightarrow> int \<Rightarrow> bool" where
  "earliest sp k = (\<exists>(t0, k0)\<in>set sp. (\<forall>(t1, k1)\<in>set sp. t0 \<le> t1) \<and> k = k0)"

text \<open>The flat list that the double loop of \<open>flaten\<close> fills, before it is sorted.\<close>

fun pooled :: "nat \<Rightarrow> real list list \<Rightarrow> int list list \<Rightarrow> (real \<times> int \<times> nat) list" where
  "pooled i [] kss = []"
| "pooled i (ts # tss) [] = []"
| "pooled i (ts # tss) (ks # kss) =
     map (\<lambda>(t, k). (t, k, i)) (zip ts ks) @ pooled (Suc i) tss kss"

text \<open>
  The temporal partition in the words of the specification: of every unit, the spikes
  whose sample index lies in the half-open range \<open>[k0, k1)\<close>, with the sample indices
  re-based to start at 0.
\<close>

definition in_range :: "int \<Rightarrow> int \<Rightarrow> 'a \<times> int \<Rightarrow> bool" where
  "in_range k0 k1 e = (k0 \<le> snd e \<and> snd e < k1)"

definition temporal_partition ::
  "real list list \<Rightarrow> int list list \<Rightarrow> int \<Rightarrow> int \<Rightarrow> real list list \<times> int list list" where
  "temporal_partition tss kss k0 k1 =
     (map2 (\<lambda>ts ks. map fst (filter (in_range k0 k1) (zip ts ks))) tss kss,
      map2 (\<lambda>ts ks. map (\<lambda>e. snd e - k0) (filter (in_range k0 k1) (zip ts ks))) tss kss)"

text \<open>
  The analysis of one network on its own inputs and outputs: matching, then one analysis
  unit per pair of consecutive cut points.
\<close>

definition partition_unit ::
  "real list list \<Rightarrow> int list list \<Rightarrow> real list list \<Rightarrow> int list list \<Rightarrow> int \<times> int
     \<Rightarrow> network_analysis" where
  "partition_unit it ii ot oi c =
     \<lparr>na_input_times = fst (temporal_partition it ii (fst c) (snd c)),
      na_input_indices = snd (temporal_partition it ii (fst c) (snd c)),
      na_output_times = fst (temporal_partition ot oi (fst c) (snd c)),
      na_output_indices = snd (temporal_partition ot oi (fst c) (snd c))\<rparr>"

definition independent_analysis ::
  "'p network_instance \<Rightarrow> population_output list \<Rightarrow> network_analysis list result" where
  "independent_analysis net output =
     bind_result (match_static (ni_input_times net) (ni_input_indices net) output) (\<lambda>(ot, oi).
     bind_result (cut_points (ni_input_indices net) (ni_input_split net)) (\<lambda>cuts.
       Inr (map (partition_unit (ni_input_times net) (ni_input_indices net) ot oi)
                (zip (0 # cuts) cuts))))"

text \<open>
  The number of matched output spikes of sample \<open>k\<close> on the neurons of the logical output
  unit \<open>j\<close> (the neurons \<open>u\<close> with \<open>u div s = j\<close>); the number of samples of an analysis
  unit, as \<open>calculate_output_matrix\<close> derives it from the input indices; and the
  analysis units whose sample indices do not decrease along the time order.
\<close>

definition unit_spike_count :: "int list list \<Rightarrow> nat \<Rightarrow> int \<Rightarrow> nat \<Rightarrow> nat" where
  "unit_spike_count output_indices s k j =
     sum_list (map (\<lambda>u. if u div s = j then count_list (output_indices ! u) k else 0)
                   [0..<length output_indices])"

definition sample_count :: "int list list \<Rightarrow> int" where
  "sample_count input_indices = Max (insert 0 (set (concat input_indices))) + 1"

definition samples_in_time_order :: "real list list \<Rightarrow> int list list \<Rightarrow> bool" where
  "samples_in_time_order tss kss = sorted (map snd (sort (spikes tss kss)))"

text \<open>
  The invariant of the loops of \<open>build_input\<close>: \<open>T\<close> and \<open>K\<close> have \<open>R\<close> rows of pairwise
  equal length, and \<open>min_t\<close> is the minimum of all times written so far (\<open>np.inf\<close> when
  nothing is written).
\<close>

definition enc_inv :: "nat \<Rightarrow> encoder_state \<Rightarrow> bool" where
  "enc_inv R st =
     (length (enc_T st) = R \<and> length (enc_K st) = R \<and> parallel (enc_T st) (enc_K st)
      \<and> (case enc_min_t st of None \<Rightarrow> concat (enc_T st) = []
          | Some mt \<Rightarrow> concat (enc_T st) \<noteq> [] \<and> mt = Min (set (concat (enc_T st)))))"

text \<open>
  The order of the spikes written without jitter.  Between two samples: every written
  spike belongs to an earlier sample and lies before the block start \<open>t\<close>, and spikes of
  earlier samples lie strictly before spikes of later samples.  Within the sample
  \<open>sIdx\<close>, its own spikes lie between \<open>t\<close> and the end of the burst.
\<close>

definition samples_ordered :: "(real \<times> int) list \<Rightarrow> bool" where
  "samples_ordered sp = (\<forall>(t1, k1)\<in>set sp. \<forall>(t2, k2)\<in>set sp. k1 < k2 \<longrightarrow> t1 < t2)"

definition enc_order :: "encoder_state \<Rightarrow> bool" where
  "enc_order st =
     ((\<forall>(t1, k1)\<in>set (spikes (enc_T st) (enc_K st)). k1 < enc_sIdx st \<and> t1 < enc_t st)
      \<and> samples_ordered (spikes (enc_T st) (enc_K st)))"

definition enc_order_in :: "input_parameters \<Rightarrow> encoder_state \<Rightarrow> bool" where
  "enc_order_in p st =
     ((\<forall>(t1, k1)\<in>set (spikes (enc_T st) (enc_K st)).
          (k1 < enc_sIdx st \<and> t1 < enc_t st)
          \<or> (k1 = enc_sIdx st \<and> enc_t st \<le> t1
              \<and> t1 \<le> enc_t st + real (burst_size p - 1) * isi p))
      \<and> samples_ordered (spikes (enc_T st) (enc_K st)))"

text \<open>
  The latency of sample \<open>k\<close> in the words of the specification: the gap between the latest
  input spike and the latest matched output spike of the sample, infinite when the
  sample has no input spike or no matched output spike.
\<close>

definition latest :: "(real \<times> int) list \<Rightarrow> int \<Rightarrow> real" where
  "latest sp k = Max (set (map fst (filter (\<lambda>e. snd e = k) sp)))"

definition latency_spec :: "network_analysis \<Rightarrow> int \<Rightarrow> latency" where
  "latency_spec a k =
     (if k \<in> set (map snd (spikes (na_input_times a) (na_input_indices a)))
         \<and> k \<in> set (map snd (spikes (na_output_times a) (na_output_indices a)))
      then Latency (latest (spikes (na_output_times a) (na_output_indices a)) k
                    - latest (spikes (na_input_times a) (na_input_indices a)) k)
      else Infinite)"

section \<open>Auxiliary facts\<close>


lemma bind_result_simps [simp]:
  "bind_result (Inl e) f = Inl e"
  "bind_result (Inr v) f = f v"
  by (simp_all add: bind_result_def)

lemma bind_result_Inr_iff:
  "bind_result r f = Inr y \<longleftrightarrow> (\<exists>v. r = Inr v \<and> f v = Inr y)"
  by (cases r) simp_all

lemma bisect_left_sorted:
  assumes "sorted a" "hi \<le> length a" "lo \<le> hi"
    and "\<forall>i<lo. a ! i < x" "\<forall>i. hi \<le> i \<and> i < length a \<longrightarrow> x \<le> a ! i"
  shows "bisect_left a x lo hi \<le> length a \<and> (\<forall>i<bisect_left a x lo hi. a ! i < x)
       \<and> (\<forall>i. bisect_left a x lo hi \<le> i \<and> i < length a \<longrightarrow> x \<le> a ! i)"
  using assms
proof (induction a x lo hi rule: bisect_left.induct)
  case (1 a x lo hi)
  show ?case
  proof (cases "lo < hi")
    case False
    with "1.prems" have "lo = hi" by simp
    with False "1.prems" show ?thesis by (simp add: bisect_left.simps)
  next
    case True
    define mid where "mid = (lo + hi) div 2"
    have mid: "lo \<le> mid" "mid < hi" using True by (simp_all add: mid_def)
    show ?thesis
    proof (cases "a ! mid < x")
      case lt: True
      have "\<forall>i<mid + 1. a ! i < x"
      proof (intro allI impI)
        fix i assume "i < mid + 1"
        then have "a ! i \<le> a ! mid"
          using "1.prems"(1,2) mid by (intro sorted_nth_mono) simp_all
        with lt show "a ! i < x" by simp
      qed
      with "1.IH"(1)[OF True mid_def lt "1.prems"(1,2)] mid "1.prems"(5) True lt
      show ?thesis by (subst (1 2 3) bisect_left.simps) (simp add: mid_def Let_def)
    next
      case ge: False
      have "\<forall>i. mid \<le> i \<and> i < length a \<longrightarrow> x \<le> a ! i"
      proof (intro allI impI)
        fix i assume "mid \<le> i \<and> i < length a"
        then have "a ! mid \<le> a ! i"
          using "1.prems"(1) by (intro sorted_nth_mono) simp_all
        with ge show "x \<le> a ! i" by simp
      qed
      with "1.IH"(2)[OF True mid_def ge "1.prems"(1)] mid "1.prems"(2,4) True ge
      show ?thesis by (subst (1 2 3) bisect_left.simps) (simp add: mid_def Let_def)
    qed
  qed
qed

lemma bisect_right_sorted:
  assumes "sorted a" "hi \<le> length a" "lo \<le> hi"
    and "\<forall>i<lo. a ! i \<le> x" "\<forall>i. hi \<le> i \<and> i < length a \<longrightarrow> x < a ! i"
  shows "bisect_right a x lo hi \<le> length a \<and> (\<forall>i<bisect_right a x lo hi. a ! i \<le> x)
       \<and> (\<forall>i. bisect_right a x lo hi \<le> i \<and> i < length a \<longrightarrow> x < a ! i)"
  using assms
proof (induction a x lo hi rule: bisect_right.induct)
  case (1 a x lo hi)
  show ?case
  proof (cases "lo < hi")
    case False
    with "1.prems" have "lo = hi" by simp
    with False "1.prems" show ?thesis by (simp add: bisect_right.simps)
  next
    case True
    define mid where "mid = (lo + hi) div 2"
    have mid: "lo \<le> mid" "mid < hi" using True by (simp_all add: mid_def)
    show ?thesis
    proof (cases "x < a ! mid")
      case lt: True
      have "\<forall>i. mid \<le> i \<and> i < length a \<longrightarrow> x < a ! i"
      proof (intro allI impI)
        fix i assume "mid \<le> i \<and> i < length a"
        then have "a ! mid \<le> a ! i"
          using "1.prems"(1) by (intro sorted_nth_mono) simp_all
        with lt show "x < a ! i" by simp
      qed
      with "1.IH"(1)[OF True mid_def lt "1.prems"(1)] mid "1.prems"(2,4) True lt
      show ?thesis by (subst (1 2 3) bisect_right.simps) (simp add: mid_def Let_def)
    next
      case ge: False
      have "\<forall>i<mid + 1. a ! i \<le> x"
      proof (intro allI impI)
        fix i assume "i < mid + 1"
        then have "a ! i \<le> a ! mid"
          using "1.prems"(1,2) mid by (intro sorted_nth_mono) simp_all
        with ge show "a ! i \<le> x" by simp
      qed
      with "1.IH"(2)[OF True mid_def ge "1.prems"(1,2)] mid "1.prems"(5) True ge
      show ?thesis by (subst (1 2 3) bisect_right.simps) (simp add: mid_def Let_def)
    qed
  qed
qed


lemma insort_key_map:
  "map h (insort_key (\<lambda>x. f (h x)) x ys) = insort_key f (h x) (map h ys)"
  by (induction ys) simp_all

lemma sort_key_map:
  "map h (sort_key (\<lambda>x. f (h x)) xs) = sort_key f (map h xs)"
  by (induction xs) (simp_all add: insort_key_map)

lemma insort_key_cong_set:
  "f x = g x \<Longrightarrow> (\<forall>y\<in>set ys. f y = g y) \<Longrightarrow> insort_key f x ys = insort_key g x ys"
  by (induction ys) simp_all

lemma sort_key_cong_set:
  "(\<forall>x\<in>set xs. f x = g x) \<Longrightarrow> sort_key f xs = sort_key g xs"
proof (induction xs)
  case Nil
  show ?case by simp
next
  case (Cons x xs)
  then have eq: "sort_key f xs = sort_key g xs" by simp
  have "insort_key f x (sort_key g xs) = insort_key g x (sort_key g xs)"
    using Cons.prems by (intro insort_key_cong_set) simp_all
  with eq show ?case by simp
qed

lemma sort_key_nth_upt:
  "map (\<lambda>i. F ! i) (sort_key (\<lambda>i. f (F ! i)) [0..<length F]) = sort_key f F"
  by (simp add: sort_key_map map_nth)

lemma argsort_take:
  "map (\<lambda>i. map g F ! i) (argsort (map f F)) = map g (sort_key f F)"
proof -
  have key: "sort_key (\<lambda>i. map f F ! i) [0..<length F] = sort_key (\<lambda>i. f (F ! i)) [0..<length F]"
    by (rule sort_key_cong_set) simp
  have "map (\<lambda>i. map g F ! i) (sort_key (\<lambda>i. f (F ! i)) [0..<length F])
      = map (\<lambda>i. g (F ! i)) (sort_key (\<lambda>i. f (F ! i)) [0..<length F])"
    by (rule map_cong) auto
  also have "\<dots> = map g (map (\<lambda>i. F ! i) (sort_key (\<lambda>i. f (F ! i)) [0..<length F]))"
    by simp
  also have "\<dots> = map g (sort_key f F)"
    by (simp only: sort_key_nth_upt)
  finally show ?thesis by (simp add: argsort_def key)
qed

lemma lexsort_take:
  "map (\<lambda>i. map g F ! i) (lexsort (map k F) (map t F)) = map g (sort_key (\<lambda>e. (t e, k e)) F)"
proof -
  have key: "sort_key (\<lambda>i. (map t F ! i, map k F ! i)) [0..<length F]
           = sort_key (\<lambda>i. (\<lambda>e. (t e, k e)) (F ! i)) [0..<length F]"
    by (rule sort_key_cong_set) simp
  have "map (\<lambda>i. map g F ! i) (sort_key (\<lambda>i. (\<lambda>e. (t e, k e)) (F ! i)) [0..<length F])
      = map (\<lambda>i. g (F ! i)) (sort_key (\<lambda>i. (\<lambda>e. (t e, k e)) (F ! i)) [0..<length F])"
    by (rule map_cong) auto
  also have "\<dots> = map g (map (\<lambda>i. F ! i) (sort_key (\<lambda>i. (\<lambda>e. (t e, k e)) (F ! i)) [0..<length F]))"
    by simp
  also have "\<dots> = map g (sort_key (\<lambda>e. (t e, k e)) F)"
    using sort_key_nth_upt[of F "\<lambda>e. (t e, k e)"] by simp
  finally show ?thesis by (simp add: lexsort_def key)
qed


lemma flaten_unit_Inr:
  "flaten_unit i ts ks = Inr r \<Longrightarrow>
     r = map (\<lambda>(t, k). (t, k, i)) (zip ts ks) \<and> length ts \<le> length ks"
proof (induction i ts ks arbitrary: r rule: flaten_unit.induct)
  case (3 i t ts k ks)
  from "3.prems" obtain r' where r': "flaten_unit i ts ks = Inr r'" "r = (t, k, i) # r'"
    by (auto simp: bind_result_Inr_iff)
  with "3.IH"[OF r'(1)] show ?case by simp
qed simp_all

lemma flaten_unit_ok:
  "length ts \<le> length ks \<Longrightarrow> flaten_unit i ts ks = Inr (map (\<lambda>(t, k). (t, k, i)) (zip ts ks))"
  by (induction i ts ks rule: flaten_unit.induct) simp_all

lemma flaten_units_Nil_Inr:
  "flaten_units i tss [] = Inr F \<Longrightarrow> F = [] \<and> concat tss = []"
  by (induction tss arbitrary: i) (simp_all split: if_splits)

lemma flaten_units_Inr:
  "flaten_units i tss kss = Inr F \<Longrightarrow> F = pooled i tss kss \<and> map fst F = concat tss"
proof (induction i tss kss arbitrary: F rule: flaten_units.induct)
  case (1 i kss)
  then show ?case by simp
next
  case (2 i ts tss)
  then show ?case using flaten_units_Nil_Inr[of i "ts # tss" F] by simp
next
  case (3 i ts tss ks kss)
  from "3.prems" obtain r rs where r: "flaten_unit i ts ks = Inr r"
    and rs: "flaten_units (Suc i) tss kss = Inr rs" and F: "F = r @ rs"
    by (auto simp: bind_result_Inr_iff)
  from flaten_unit_Inr[OF r] have r': "r = map (\<lambda>(t, k). (t, k, i)) (zip ts ks)" "length ts \<le> length ks"
    by simp_all
  have "map fst (map (\<lambda>(t, k). (t, k, i)) (zip ts ks)) = map fst (zip ts ks)"
    by (simp add: case_prod_unfold)
  also have "\<dots> = ts" using r'(2) by (simp add: map_fst_zip_take)
  finally have "map fst r = ts" unfolding r'(1) .
  moreover from "3.IH"[OF rs] have "rs = pooled (Suc i) tss kss" "map fst rs = concat tss"
    by blast+
  ultimately show ?case using r'(1) F by simp
qed


lemma flaten_Inr:
  assumes "flaten tms indices b = Inr (tF, kF, nF)"
  shows "tms \<noteq> [] \<and> (\<exists>F. flaten_units 0 tms indices = Inr F
     \<and> (let S = (if b then sort_key (\<lambda>e. (fst e, fst (snd e))) F else sort_key fst F)
        in tF = map fst S \<and> kF = map (\<lambda>e. fst (snd e)) S \<and> nF = map (\<lambda>e. snd (snd e)) S))"
proof -
  from assms have ne: "tms \<noteq> []" by (auto simp: flaten_def split: if_splits)
  with assms obtain F where F: "flaten_units 0 tms indices = Inr F"
    by (cases "flaten_units 0 tms indices") (simp_all add: flaten_def)
  show ?thesis
  proof (cases b)
    case True
    with assms ne F show ?thesis
      by (simp add: flaten_def Let_def lexsort_take[of _ F "\<lambda>e. fst (snd e)" fst])
  next
    case False
    with assms ne F show ?thesis
      by (simp add: flaten_def Let_def argsort_take[of _ F fst])
  qed
qed


lemma match_index_Nil: "match_index [] kIn t = 0"
  by (simp add: match_index_def bisect_left.simps)

lemma match_index_before:
  assumes "sorted tIn" and "i0 < length tIn" and "tIn ! i0 < t"
  shows "\<exists>idx<length tIn. tIn ! idx < t \<and> (\<forall>i<length tIn. tIn ! i < t \<longrightarrow> i \<le> idx)
           \<and> match_index tIn kIn t = kIn ! idx"
proof -
  define r where "r = bisect_left tIn t 0 (length tIn)"
  have r: "r \<le> length tIn" "\<forall>i<r. tIn ! i < t" "\<forall>i. r \<le> i \<and> i < length tIn \<longrightarrow> t \<le> tIn ! i"
    using bisect_left_sorted[OF assms(1), of "length tIn" 0 t] by (simp_all add: r_def)
  have "i0 < r" using r(3) assms(2,3) by (meson not_le not_less)
  then have pos: "0 < r" by simp
  have "r - 1 < length tIn" using r(1) pos by simp
  moreover have "tIn ! (r - 1) < t" using r(2) pos by simp
  moreover have "\<forall>i<length tIn. tIn ! i < t \<longrightarrow> i \<le> r - 1"
    using r(3) by (metis Suc_pred' not_le not_less_eq_eq pos)
  moreover have "match_index tIn kIn t = kIn ! (r - 1)"
    using pos \<open>r - 1 < length tIn\<close> by (simp add: match_index_def r_def[symmetric] Let_def)
  ultimately show ?thesis by blast
qed

lemma match_index_first:
  assumes "sorted tIn" and "tIn \<noteq> []" and "\<forall>i<length tIn. t \<le> tIn ! i"
  shows "match_index tIn kIn t = kIn ! 0"
proof -
  define r where "r = bisect_left tIn t 0 (length tIn)"
  have r: "r \<le> length tIn" "\<forall>i<r. tIn ! i < t"
    using bisect_left_sorted[OF assms(1), of "length tIn" 0 t] by (simp_all add: r_def)
  have "r = 0"
  proof (rule ccontr)
    assume "r \<noteq> 0"
    then have "tIn ! 0 < t" using r(2) by simp
    moreover have "t \<le> tIn ! 0" using assms(2,3) by simp
    ultimately show False by simp
  qed
  then show ?thesis using assms(2) by (simp add: match_index_def r_def[symmetric] Let_def)
qed

lemma pooled_spikes: "map (\<lambda>e. (fst e, fst (snd e))) (pooled i tss kss) = spikes tss kss"
  by (induction i tss kss rule: pooled.induct) (simp_all add: spikes_def case_prod_unfold comp_def)

lemma flaten_units_ok: "parallel tss kss \<Longrightarrow> flaten_units i tss kss = Inr (pooled i tss kss)"
  unfolding parallel_def
proof (induction tss kss arbitrary: i rule: list_all2_induct)
  case Nil
  show ?case by simp
next
  case (Cons ts tss ks kss)
  then show ?case by (simp add: flaten_unit_ok)
qed

lemma flaten_ok:
  "parallel tms indices \<Longrightarrow> tms \<noteq> [] \<Longrightarrow> \<exists>r. flaten tms indices b = Inr r"
  by (simp add: flaten_def flaten_units_ok Let_def)

lemma sorted_map_fst_lex:
  fixes xs :: "('a::linorder \<times> 'b::linorder) list"
  assumes "sorted xs"
  shows "sorted (map fst xs)"
proof -
  have "sorted_wrt (\<lambda>x y. fst x \<le> fst y) xs"
    using assms by (rule sorted_wrt_mono_rel[rotated]) (auto simp: less_eq_prod_def)
  then show ?thesis by (simp add: sorted_map)
qed

lemma flaten_facts:
  assumes "flaten tms indices b = Inr (tF, kF, nF)"
  shows "sorted tF" and "length kF = length tF" and "length nF = length tF"
    and "mset (zip tF kF) = mset (spikes tms indices)"
    and "map fst (spikes tms indices) = concat tms" and "tms \<noteq> []"
proof -
  from flaten_Inr[OF assms] obtain F where ne: "tms \<noteq> []"
    and F: "flaten_units 0 tms indices = Inr F"
    and S: "let S = (if b then sort_key (\<lambda>e. (fst e, fst (snd e))) F else sort_key fst F)
            in tF = map fst S \<and> kF = map (\<lambda>e. fst (snd e)) S \<and> nF = map (\<lambda>e. snd (snd e)) S"
    by blast
  define S where "S = (if b then sort_key (\<lambda>e. (fst e, fst (snd e))) F else sort_key fst F)"
  from S have tF: "tF = map fst S" and kF: "kF = map (\<lambda>e. fst (snd e)) S"
    and nF: "nF = map (\<lambda>e. snd (snd e)) S" by (simp_all add: S_def Let_def)
  from flaten_units_Inr[OF F] have Fp: "F = pooled 0 tms indices" "map fst F = concat tms"
    by blast+
  have mS: "mset S = mset F" by (simp add: S_def)
  show "tms \<noteq> []" by (rule ne)
  show "length kF = length tF" "length nF = length tF" by (simp_all add: tF kF nF)
  show "sorted tF"
  proof (cases b)
    case True
    then have "sorted (map (\<lambda>e. (fst e, fst (snd e))) S)" by (simp add: S_def)
    then have "sorted (map fst (map (\<lambda>e. (fst e, fst (snd e))) S))"
      by (rule sorted_map_fst_lex)
    then show ?thesis by (simp add: tF comp_def)
  next
    case False
    then show ?thesis by (simp add: tF S_def)
  qed
  have "zip tF kF = map (\<lambda>e. (fst e, fst (snd e))) S"
    by (simp add: tF kF zip_map_map zip_same_conv_map)
  then have "mset (zip tF kF) = image_mset (\<lambda>e. (fst e, fst (snd e))) (mset S)" by simp
  also have "\<dots> = mset (map (\<lambda>e. (fst e, fst (snd e))) F)" by (simp add: mS)
  also have "\<dots> = mset (spikes tms indices)" by (simp only: Fp(1) pooled_spikes)
  finally show "mset (zip tF kF) = mset (spikes tms indices)" .
  have "map fst (spikes tms indices) = map fst (map (\<lambda>e. (fst e, fst (snd e))) F)"
    by (simp only: Fp(1) pooled_spikes)
  then show "map fst (spikes tms indices) = concat tms" using Fp(2) by (simp add: comp_def)
qed


lemma match_static_Inr:
  assumes "match_static it ii output = Inr (ot, oi)"
  shows "\<exists>tIn kIn nIn. flaten it ii False = Inr (tIn, kIn, nIn)
           \<and> map_result output_spikes (drop (length it) output) = Inr ot
           \<and> oi = map (map (match_index tIn kIn)) ot"
proof -
  from assms obtain r where r: "flaten it ii False = Inr r"
    by (cases "flaten it ii False") (simp_all add: match_static_def)
  obtain tIn kIn nIn where rr: "r = (tIn, kIn, nIn)" by (cases r) auto
  from assms r rr obtain ot' where ot': "map_result output_spikes (drop (length it) output) = Inr ot'"
    by (cases "map_result output_spikes (drop (length it) output)") (simp_all add: match_static_def)
  with assms r rr show ?thesis by (auto simp: match_static_def)
qed

lemma map_result_ok:
  "(\<forall>x\<in>set xs. \<exists>y. f x = Inr y) \<Longrightarrow> \<exists>ys. map_result f xs = Inr ys"
proof (induction xs)
  case Nil
  show ?case by simp
next
  case (Cons x xs)
  then obtain y ys where "f x = Inr y" "map_result f xs = Inr ys" by auto
  then show ?case by simp
qed

lemma match_static_ok:
  assumes "it \<noteq> []" and "parallel it ii"
    and "\<forall>p\<in>set (drop (length it) output). \<exists>x xs. p = Some (x # xs)"
  shows "\<exists>ot oi. match_static it ii output = Inr (ot, oi)"
proof -
  from flaten_ok[OF assms(2,1)] obtain r where r: "flaten it ii False = Inr r" by blast
  obtain tIn kIn nIn where rr: "r = (tIn, kIn, nIn)" by (cases r) auto
  have "\<forall>p\<in>set (drop (length it) output). \<exists>y. output_spikes p = Inr y"
    using assms(3) by (auto simp: output_spikes_def)
  from map_result_ok[OF this] obtain ot
    where "map_result output_spikes (drop (length it) output) = Inr ot" by blast
  with r rr show ?thesis by (simp add: match_static_def)
qed

lemma decode_before:
  assumes fl: "flaten it ii False = Inr (tIn, kIn, nIn)"
    and ex: "\<exists>(t0, k0)\<in>set (spikes it ii). t0 < t"
  shows "most_recent_before (spikes it ii) t (match_index tIn kIn t)"
proof -
  note f = flaten_facts[OF fl]
  have sets: "set (zip tIn kIn) = set (spikes it ii)" using f(4) by (rule mset_eq_setD)
  have tset: "set tIn = fst ` set (spikes it ii)"
    using sets f(2) by (metis map_fst_zip set_map)
  from ex obtain t0 where "t0 \<in> set tIn" "t0 < t" using tset by force
  then obtain a where a: "a < length tIn" "tIn ! a < t" by (auto simp: in_set_conv_nth)
  from match_index_before[OF f(1) a, of kIn] obtain idx where idx: "idx < length tIn"
    "tIn ! idx < t" "\<forall>i<length tIn. tIn ! i < t \<longrightarrow> i \<le> idx"
    "match_index tIn kIn t = kIn ! idx" by blast
  have mem: "(tIn ! idx, kIn ! idx) \<in> set (spikes it ii)"
    using idx(1) f(2) sets by (metis in_set_zip fst_conv snd_conv)
  have "\<forall>(t1, k1)\<in>set (spikes it ii). t1 < t \<longrightarrow> t1 \<le> tIn ! idx"
  proof (clarify)
    fix t1 k1 assume "(t1, k1) \<in> set (spikes it ii)" "t1 < t"
    then have "t1 \<in> set tIn" using tset by force
    then obtain b where b: "b < length tIn" "tIn ! b = t1" by (auto simp: in_set_conv_nth)
    with idx(3) \<open>t1 < t\<close> have "b \<le> idx" by simp
    with f(1) idx(1) b show "t1 \<le> tIn ! idx" by (metis sorted_nth_mono)
  qed
  with mem idx(2,4) show ?thesis unfolding most_recent_before_def by blast
qed

lemma decode_first:
  assumes fl: "flaten it ii False = Inr (tIn, kIn, nIn)"
    and all: "\<forall>(t1, k1)\<in>set (spikes it ii). t \<le> t1"
  shows "if spikes it ii = [] then match_index tIn kIn t = 0
         else earliest (spikes it ii) (match_index tIn kIn t)"
proof -
  note f = flaten_facts[OF fl]
  have sets: "set (zip tIn kIn) = set (spikes it ii)" using f(4) by (rule mset_eq_setD)
  have tset: "set tIn = fst ` set (spikes it ii)"
    using sets f(2) by (metis map_fst_zip set_map)
  show ?thesis
  proof (cases "spikes it ii = []")
    case True
    then have "tIn = []" using tset by simp
    with True show ?thesis by (simp add: match_index_Nil)
  next
    case False
    then have ne: "tIn \<noteq> []" using tset by auto
    have ge: "\<forall>i<length tIn. t \<le> tIn ! i"
    proof (intro allI impI)
      fix i assume "i < length tIn"
      then have "tIn ! i \<in> fst ` set (spikes it ii)" using tset by (metis nth_mem)
      with all show "t \<le> tIn ! i" by force
    qed
    from match_index_first[OF f(1) ne ge] have m: "match_index tIn kIn t = kIn ! 0" .
    have mem: "(tIn ! 0, kIn ! 0) \<in> set (spikes it ii)"
      using ne f(2) sets by (metis in_set_zip fst_conv snd_conv length_greater_0_conv)
    have "\<forall>(t1, k1)\<in>set (spikes it ii). tIn ! 0 \<le> t1"
    proof (clarify)
      fix t1 k1 assume "(t1, k1) \<in> set (spikes it ii)"
      then have "t1 \<in> set tIn" using tset by force
      then obtain b where b: "b < length tIn" "tIn ! b = t1" by (auto simp: in_set_conv_nth)
      with f(1) show "tIn ! 0 \<le> t1" by (metis sorted_nth_mono le0)
    qed
    with mem m False show ?thesis unfolding earliest_def by auto
  qed
qed

subsection \<open>Temporal and spatial splitting\<close>

lemma split_unit_ok:
  "length ts \<le> length ks \<Longrightarrow>
     split_unit ts ks k0 k1 =
       Inr (map fst (filter (in_range k0 k1) (zip ts ks)),
            map (\<lambda>e. snd e - k0) (filter (in_range k0 k1) (zip ts ks)))"
  by (induction ts ks k0 k1 rule: split_unit.induct) (simp_all add: in_range_def)

lemma split_part_ok:
  "parallel tss kss \<Longrightarrow> split_part tss kss k0 k1 = Inr (temporal_partition tss kss k0 k1)"
  unfolding parallel_def
proof (induction tss kss rule: list_all2_induct)
  case Nil
  show ?case by (simp add: temporal_partition_def)
next
  case (Cons ts tss ks kss)
  then show ?case by (simp add: split_unit_ok temporal_partition_def)
qed

lemma analysis_parts_ok:
  assumes "parallel it ii" and "parallel ot oi"
  shows "analysis_parts it ii ot oi k0 cuts
           = Inr (map (partition_unit it ii ot oi) (zip (k0 # cuts) cuts))"
proof (induction cuts arbitrary: k0)
  case Nil
  show ?case by simp
next
  case (Cons k ks)
  show ?case
    by (simp add: split_part_ok[OF assms(1)] split_part_ok[OF assms(2)] Cons.IH
        partition_unit_def prod.case_eq_if)
qed

lemma parallel_map_map: "parallel ot (map (map f) ot)"
  by (simp add: parallel_def list_all2_conv_all_nth)

lemma build_analysis_independent:
  assumes "parallel (ni_input_times net) (ni_input_indices net)"
  shows "build_analysis net output = independent_analysis net output"
proof (cases "match_static (ni_input_times net) (ni_input_indices net) output")
  case (Inl e)
  then show ?thesis
    by (simp add: build_analysis_def build_analysis_static_def independent_analysis_def)
next
  case (Inr r)
  obtain ot oi where r: "r = (ot, oi)" by (cases r) auto
  from match_static_Inr[OF Inr[unfolded r]] have par: "parallel ot oi"
    by (auto simp: parallel_map_map)
  show ?thesis
  proof (cases "cut_points (ni_input_indices net) (ni_input_split net)")
    case (Inl e)
    with Inr r show ?thesis
      by (simp add: build_analysis_def build_analysis_static_def independent_analysis_def)
  next
    case cuts: (Inr cuts)
    with Inr r show ?thesis
      by (simp add: build_analysis_def build_analysis_static_def independent_analysis_def
          analysis_parts_ok[OF assms par])
  qed
qed

lemma py_slice_append_first: "py_slice 0 (length xs) (xs @ ys) = xs"
  by (simp add: py_slice_def)

lemma py_slice_append_second: "py_slice (length xs) (length xs + length ys) (xs @ ys) = ys"
  by (simp add: py_slice_def)

lemma pool_of_two:
  assumes "length (ni_input_indices A) = length (ni_input_times A)"
    and "length (ni_input_indices B) = length (ni_input_times B)"
    and "length outA = length (ni_populations A)"
    and "length outB = length (ni_populations B)"
  shows "pool_build_analysis (add_network (add_network network_pool_init A) B) (outA @ outB)
         = bind_result (build_analysis A outA) (\<lambda>ra.
           bind_result (build_analysis B outB) (\<lambda>rb. Inr (ra @ rb)))"
proof -
  have iiA: "py_slice 0 (length (ni_input_times A)) (ni_input_indices A @ ni_input_indices B)
               = ni_input_indices A"
    using py_slice_append_first[of "ni_input_indices A" "ni_input_indices B"] assms(1) by simp
  have iiB: "py_slice (length (ni_input_times A))
               (length (ni_input_times A) + length (ni_input_times B))
               (ni_input_indices A @ ni_input_indices B) = ni_input_indices B"
    using py_slice_append_second[of "ni_input_indices A" "ni_input_indices B"] assms(1,2)
    by simp
  have oA: "py_slice 0 (length (ni_populations A)) (outA @ outB) = outA"
    using py_slice_append_first[of outA outB] assms(3) by simp
  have oB: "py_slice (length (ni_populations A))
              (length (ni_populations A) + length (ni_populations B)) (outA @ outB) = outB"
    using py_slice_append_second[of outA outB] assms(3,4) by simp
  show ?thesis
    by (simp add: pool_build_analysis_def add_network_def network_pool_init_def Let_def
        py_slice_append_first py_slice_append_second iiA iiB oA oB build_analysis_def
        bind_result_def split: sum.splits)
qed

subsection \<open>The output matrix\<close>

lemma flaten_True_samples:
  assumes "flaten tms indices True = Inr (tF, kF, nF)"
  shows "kF = map snd (sort (spikes tms indices))"
    and "mset (zip kF nF) = image_mset snd (mset (pooled 0 tms indices))"
    and "length nF = length kF"
proof -
  from flaten_Inr[OF assms] obtain F where F: "flaten_units 0 tms indices = Inr F"
    and S: "let S = (if True then sort_key (\<lambda>e. (fst e, fst (snd e))) F else sort_key fst F)
            in tF = map fst S \<and> kF = map (\<lambda>e. fst (snd e)) S \<and> nF = map (\<lambda>e. snd (snd e)) S"
    by blast
  define S where "S = sort_key (\<lambda>e. (fst e, fst (snd e))) F"
  from S have kF: "kF = map (\<lambda>e. fst (snd e)) S" and nF: "nF = map (\<lambda>e. snd (snd e)) S"
    by (simp_all add: S_def Let_def)
  from flaten_units_Inr[OF F] have Fp: "F = pooled 0 tms indices" by blast
  have "map (\<lambda>e. (fst e, fst (snd e))) S = sort_key (\<lambda>x. x) (map (\<lambda>e. (fst e, fst (snd e))) F)"
    unfolding S_def by (rule sort_key_map)
  also have "\<dots> = sort (spikes tms indices)" by (simp only: Fp pooled_spikes)
  finally have "map (\<lambda>e. (fst e, fst (snd e))) S = sort (spikes tms indices)" .
  then have "map snd (map (\<lambda>e. (fst e, fst (snd e))) S) = map snd (sort (spikes tms indices))"
    by simp
  then show "kF = map snd (sort (spikes tms indices))" by (simp add: kF comp_def)
  have "zip kF nF = map snd S" by (simp add: kF nF zip_map_map zip_same_conv_map)
  then have "mset (zip kF nF) = image_mset snd (mset S)" by simp
  also have "mset S = mset F" by (simp add: S_def)
  finally show "mset (zip kF nF) = image_mset snd (mset (pooled 0 tms indices))"
    by (simp only: Fp)
  show "length nF = length kF" by (simp add: kF nF)
qed


lemma upt_split2: "i \<le> j \<Longrightarrow> j \<le> n \<Longrightarrow> [i..<n] = [i..<j] @ [j..<n]"
  using upt_add_eq_append[of i j "n - j"] by simp

lemma upt_split3: "i0 \<le> i1 \<Longrightarrow> i1 \<le> n \<Longrightarrow> [0..<n] = [0..<i0] @ [i0..<i1] @ [i1..<n]"
  using upt_split2[of 0 i0 n] upt_split2[of i0 i1 n] by simp

lemma bisect_range_sorted:
  fixes kOut :: "int list"
  assumes "sorted kOut"
  shows "[bisect_left kOut k 0 (length kOut)..<bisect_right kOut k 0 (length kOut)]
         = filter (\<lambda>i. kOut ! i = k) [0..<length kOut]"
proof -
  define i0 where "i0 = bisect_left kOut k 0 (length kOut)"
  define i1 where "i1 = bisect_right kOut k 0 (length kOut)"
  define n where "n = length kOut"
  have l: "i0 \<le> n" "\<forall>i<i0. kOut ! i < k" "\<forall>i. i0 \<le> i \<and> i < n \<longrightarrow> k \<le> kOut ! i"
    using bisect_left_sorted[OF assms, of "length kOut" 0 k] by (simp_all add: i0_def n_def)
  have r: "i1 \<le> n" "\<forall>i<i1. kOut ! i \<le> k" "\<forall>i. i1 \<le> i \<and> i < n \<longrightarrow> k < kOut ! i"
    using bisect_right_sorted[OF assms, of "length kOut" 0 k] by (simp_all add: i1_def n_def)
  have le: "i0 \<le> i1"
  proof (rule ccontr)
    assume "\<not> i0 \<le> i1"
    then have lt: "i1 < i0" by simp
    with l(1) have "i1 < n" by simp
    with r(3) have "k < kOut ! i1" by simp
    moreover from l(2) lt have "kOut ! i1 < k" by simp
    ultimately show False by simp
  qed
  have split: "[0..<n] = [0..<i0] @ [i0..<i1] @ [i1..<n]"
    using le r(1) by (rule upt_split3)
  have a: "filter (\<lambda>i. kOut ! i = k) [0..<i0] = []"
    using l(2) by (auto simp: filter_empty_conv)
  have b: "filter (\<lambda>i. kOut ! i = k) [i0..<i1] = [i0..<i1]"
  proof (rule filter_True, clarify)
    fix i assume "i \<in> set [i0..<i1]"
    then have "i0 \<le> i" "i < i1" by simp_all
    with l(3) r(1,2) have "k \<le> kOut ! i" "kOut ! i \<le> k" by simp_all
    then show "kOut ! i = k" by simp
  qed
  have c: "filter (\<lambda>i. kOut ! i = k) [i1..<n] = []"
    using r(3) by (auto simp: filter_empty_conv)
  have "filter (\<lambda>i. kOut ! i = k) [0..<n] = [i0..<i1]"
    by (subst split) (simp add: a b c)
  then show ?thesis by (simp add: i0_def i1_def n_def)
qed

lemma output_row_fold:
  assumes "length row0 = n" and "\<forall>i\<in>set js. nOut ! i div s < n"
  shows "fold_result
           (\<lambda>i row. if nOut ! i div s < n
                    then Inr (row[nOut ! i div s := row ! (nOut ! i div s) + 1])
                    else Inl IndexError) js row0
         = Inr (map (\<lambda>j. row0 ! j + real (length (filter (\<lambda>i. nOut ! i div s = j) js))) [0..<n])"
  using assms
proof (induction js arbitrary: row0)
  case Nil
  then have "map ((!) row0) [0..<n] = row0" using map_nth[of row0] by simp
  then show ?case by simp
next
  case (Cons i js)
  define c where "c = nOut ! i div s"
  from Cons.prems have c: "c < n" by (simp add: c_def)
  define row1 where "row1 = row0[c := row0 ! c + 1]"
  have len1: "length row1 = n" using Cons.prems(1) by (simp add: row1_def)
  have rest: "\<forall>i\<in>set js. nOut ! i div s < n" using Cons.prems(2) by simp
  have "map (\<lambda>j. row1 ! j + real (length (filter (\<lambda>i. nOut ! i div s = j) js))) [0..<n]
      = map (\<lambda>j. row0 ! j + real (length (filter (\<lambda>i. nOut ! i div s = j) (i # js)))) [0..<n]"
  proof (rule map_cong[OF refl])
    fix j assume "j \<in> set [0..<n]"
    then have "j < length row0" using Cons.prems(1) by simp
    then show "row1 ! j + real (length (filter (\<lambda>i. nOut ! i div s = j) js))
             = row0 ! j + real (length (filter (\<lambda>i. nOut ! i div s = j) (i # js)))"
      by (cases "j = c") (simp_all add: row1_def c_def)
  qed
  with Cons.IH[OF len1 rest] c show ?case
    by (simp add: c_def[symmetric] row1_def[symmetric])
qed

lemma count_positions:
  assumes "length nOut = length kOut"
  shows "length (filter (\<lambda>i. P (kOut ! i, nOut ! i)) [0..<length kOut])
         = size (filter_mset P (mset (zip kOut nOut)))"
proof -
  have "zip kOut nOut = map (\<lambda>i. (kOut ! i, nOut ! i)) [0..<length kOut]"
    using assms by (intro nth_equalityI) simp_all
  then have "filter P (zip kOut nOut) = map (\<lambda>i. (kOut ! i, nOut ! i))
               (filter (\<lambda>i. P (kOut ! i, nOut ! i)) [0..<length kOut])"
    by (simp add: filter_map comp_def)
  then have "length (filter P (zip kOut nOut))
           = length (filter (\<lambda>i. P (kOut ! i, nOut ! i)) [0..<length kOut])" by simp
  moreover have "size (filter_mset P (mset (zip kOut nOut))) = length (filter P (zip kOut nOut))"
    by (metis mset_filter size_mset)
  ultimately show ?thesis by simp
qed

lemma count_list_zip_snd:
  "length ts = length ks \<Longrightarrow>
     length (filter (\<lambda>e. snd e = k) (zip ts ks)) = count_list ks k"
  by (induction ts ks rule: list_induct2) simp_all

lemma pooled_count:
  assumes "parallel tss kss"
  shows "length (filter (\<lambda>e. fst (snd e) = k \<and> snd (snd e) div s = j) (pooled i0 tss kss))
         = sum_list (map (\<lambda>u. if (i0 + u) div s = j then count_list (kss ! u) k else 0)
                         [0..<length kss])"
  using assms unfolding parallel_def
proof (induction tss kss arbitrary: i0 rule: list_all2_induct)
  case Nil
  show ?case by simp
next
  case (Cons ts tss ks kss)
  have hd: "length (filter (\<lambda>e. fst (snd e) = k \<and> snd (snd e) div s = j)
                      (map (\<lambda>(t, k). (t, k, i0)) (zip ts ks)))
          = (if i0 div s = j then count_list ks k else 0)"
  proof (cases "i0 div s = j")
    case True
    have "count_list ks k = length (filter (\<lambda>e. snd e = k) (zip ts ks))"
      using Cons.hyps(1) by (simp add: count_list_zip_snd)
    with True show ?thesis by (simp add: filter_map comp_def case_prod_unfold)
  next
    case False
    then show ?thesis by (simp add: filter_map comp_def case_prod_unfold)
  qed
  have shift: "[0..<length (ks # kss)] = 0 # map Suc [0..<length kss]"
    by (simp add: upt_conv_Cons map_Suc_upt del: upt_Suc)
  show ?case
    by (simp only: pooled.simps filter_append length_append hd Cons.IH[of "Suc i0"] shift)
       (simp add: comp_def cong: if_cong)
qed

lemma pooled_neuron_bound:
  "e \<in> set (pooled i0 tss kss) \<Longrightarrow> snd (snd e) < i0 + length tss"
  by (induction i0 tss kss rule: pooled.induct) auto


lemma py_max_Max: "xs \<noteq> [] \<Longrightarrow> py_max xs = Inr (Max (set xs))"
proof (cases xs)
  case Nil
  assume "xs \<noteq> []"
  with Nil show ?thesis by simp
next
  case (Cons a list)
  show ?thesis unfolding Cons using Max.set_eq_fold[of a list] by simp
qed

lemma map_result_all:
  "(\<forall>x\<in>set xs. f x = Inr (g x)) \<Longrightarrow> map_result f xs = Inr (map g xs)"
  by (induction xs) simp_all

lemma sample_count_eq:
  assumes "ii \<noteq> []"
  shows "Max (set (map (\<lambda>ks. Max (set (ks @ [0::int]))) ii)) + 1 = sample_count ii"
proof -
  define A where "A = set (map (\<lambda>ks. Max (set (ks @ [0::int]))) ii)"
  have fin: "finite A" and ne: "A \<noteq> {}" using assms by (simp_all add: A_def)
  have "Max (insert 0 (set (concat ii))) = Max A"
  proof (rule Max_eqI)
    show "finite (insert 0 (set (concat ii)))" by simp
  next
    fix y assume "y \<in> insert 0 (set (concat ii))"
    then consider "y = 0" | ks where "ks \<in> set ii" "y \<in> set ks" by auto
    then show "y \<le> Max A"
    proof cases
      case 1
      from assms obtain ks where ks: "ks \<in> set ii" by (cases ii) auto
      have "0 \<le> Max (set (ks @ [0::int]))" by (rule Max_ge) simp_all
      moreover have "Max (set (ks @ [0])) \<in> A" using ks by (simp add: A_def del: set_append)
      then have "Max (set (ks @ [0])) \<le> Max A" by (rule Max_ge[OF fin])
      ultimately have "0 \<le> Max A" by (rule order_trans)
      then show ?thesis by (simp only: 1)
    next
      case 2
      have "y \<le> Max (set (ks @ [0::int]))" by (rule Max_ge) (use 2(2) in simp_all)
      moreover have "Max (set (ks @ [0])) \<in> A" using 2(1) by (simp add: A_def del: set_append)
      then have "Max (set (ks @ [0])) \<le> Max A" by (rule Max_ge[OF fin])
      ultimately show ?thesis by (rule order_trans)
    qed
  next
    have "Max A \<in> A" using fin ne by (rule Max_in)
    then obtain ks where ks: "ks \<in> set ii" "Max A = Max (set (ks @ [0::int]))"
      unfolding A_def by (auto simp del: set_append)
    have "Max (set (ks @ [0::int])) \<in> set (ks @ [0])" by (rule Max_in) simp_all
    with ks show "Max A \<in> insert 0 (set (concat ii))" by auto
  qed
  then show ?thesis by (simp add: sample_count_def A_def)
qed

lemma output_row_sorted:
  assumes fl: "flaten ot oi True = Inr (tOut, kOut, nOut)"
    and par: "parallel ot oi" and s: "0 < s" and len: "length oi = n * s"
    and ord: "samples_in_time_order ot oi"
  shows "output_row kOut nOut s n k
         = Inr (map (\<lambda>j. real (unit_spike_count oi s k j)) [0..<n])"
proof -
  note f = flaten_True_samples[OF fl]
  have sorted: "sorted kOut" using ord by (simp add: f(1) samples_in_time_order_def)
  define js where "js = filter (\<lambda>i. kOut ! i = k) [0..<length kOut]"
  have range: "[bisect_left kOut k 0 (length kOut)..<bisect_right kOut k 0 (length kOut)] = js"
    unfolding js_def by (rule bisect_range_sorted[OF sorted])
  have lens: "length ot = length oi" using par by (simp add: parallel_def list_all2_lengthD)
  have bound: "\<forall>i\<in>set js. nOut ! i div s < n"
  proof
    fix i assume "i \<in> set js"
    then have i: "i < length kOut" by (simp add: js_def)
    then have "(kOut ! i, nOut ! i) \<in> set (zip kOut nOut)"
      using f(3) by (metis in_set_zip fst_conv snd_conv)
    then have "(kOut ! i, nOut ! i) \<in># image_mset snd (mset (pooled 0 ot oi))"
      using f(2) by (metis set_mset_mset)
    then obtain e where "e \<in> set (pooled 0 ot oi)" "snd e = (kOut ! i, nOut ! i)" by auto
    with pooled_neuron_bound[of e 0 ot oi] have "nOut ! i < n * s" using lens len by simp
    then show "nOut ! i div s < n" using s by (simp add: less_mult_imp_div_less)
  qed
  have cnt: "length (filter (\<lambda>i. nOut ! i div s = j) js) = unit_spike_count oi s k j" for j
  proof -
    have "filter (\<lambda>i. nOut ! i div s = j) js
        = filter (\<lambda>i. (\<lambda>p. fst p = k \<and> snd p div s = j) (kOut ! i, nOut ! i)) [0..<length kOut]"
      by (simp add: js_def conj_commute)
    then have "length (filter (\<lambda>i. nOut ! i div s = j) js)
        = size (filter_mset (\<lambda>p. fst p = k \<and> snd p div s = j) (mset (zip kOut nOut)))"
      using count_positions[OF f(3), of "\<lambda>p. fst p = k \<and> snd p div s = j"] by simp
    also have "\<dots> = size (filter_mset (\<lambda>p. fst p = k \<and> snd p div s = j)
                         (image_mset snd (mset (pooled 0 ot oi))))" by (simp only: f(2))
    also have "\<dots> = length (filter (\<lambda>e. fst (snd e) = k \<and> snd (snd e) div s = j) (pooled 0 ot oi))"
      by (simp add: filter_mset_image_mset comp_def flip: mset_filter)
    also have "\<dots> = unit_spike_count oi s k j"
      using pooled_count[OF par, of k s j 0] by (simp add: unit_spike_count_def)
    finally show ?thesis .
  qed
  have "output_row kOut nOut s n k
      = Inr (map (\<lambda>j. replicate n 0 ! j + real (length (filter (\<lambda>i. nOut ! i div s = j) js))) [0..<n])"
    unfolding output_row_def Let_def range
    by (rule output_row_fold[OF _ bound]) simp
  also have "map (\<lambda>j. replicate n 0 ! j + real (length (filter (\<lambda>i. nOut ! i div s = j) js))) [0..<n]
           = map (\<lambda>j. real (unit_spike_count oi s k j)) [0..<n]"
    by (rule map_cong[OF refl]) (simp add: cnt)
  finally show ?thesis .
qed

lemma calculate_output_matrix_sorted:
  assumes "0 < s" and "na_output_times a \<noteq> []" and "na_input_indices a \<noteq> []"
    and "parallel (na_output_times a) (na_output_indices a)"
    and "length (na_output_indices a) = n * s"
    and "samples_in_time_order (na_output_times a) (na_output_indices a)"
  shows "calculate_output_matrix a s burst
         = Inr (map (\<lambda>k. map (\<lambda>j. real (unit_spike_count (na_output_indices a) s k j) / real burst)
                              [0..<n])
                    [0..sample_count (na_input_indices a) - 1])"
proof -
  from flaten_ok[OF assms(4,2)] obtain r
    where r: "flaten (na_output_times a) (na_output_indices a) True = Inr r" by blast
  obtain tOut kOut nOut where rr: "r = (tOut, kOut, nOut)" by (cases r) auto
  have ms: "map_result (\<lambda>ks. py_max (ks @ [0])) (na_input_indices a)
          = Inr (map (\<lambda>ks. Max (set (ks @ [0]))) (na_input_indices a))"
    by (rule map_result_all) (simp add: py_max_Max)
  have mx: "py_max (map (\<lambda>ks. Max (set (ks @ [0]))) (na_input_indices a))
          = Inr (Max (set (map (\<lambda>ks. Max (set (ks @ [0]))) (na_input_indices a))))"
    using assms(3) by (intro py_max_Max) simp
  have n: "length (na_output_indices a) div s = n" using assms(1,5) by simp
  have rows: "map_result (output_row kOut nOut s n) [0..sample_count (na_input_indices a) - 1]
            = Inr (map (\<lambda>k. map (\<lambda>j. real (unit_spike_count (na_output_indices a) s k j)) [0..<n])
                       [0..sample_count (na_input_indices a) - 1])"
    by (rule map_result_all)
       (simp add: output_row_sorted[OF r[unfolded rr] assms(4,1,5,6)])
  have N: "Max (set (map (\<lambda>ks. Max (set (ks @ [0]))) (na_input_indices a))) + 1 - 1
         = sample_count (na_input_indices a) - 1"
    by (simp only: sample_count_eq[OF assms(3)])
  have "calculate_output_matrix a s burst
      = bind_result (map_result (output_row kOut nOut s n)
                       [0..sample_count (na_input_indices a) - 1])
          (\<lambda>res. Inr (map (map (\<lambda>c. c / real burst)) res))"
    unfolding calculate_output_matrix_def r rr ms mx bind_result_simps prod.case Let_def n N
    using assms(1) by simp
  then show ?thesis by (simp add: rows comp_def)
qed

subsection \<open>Latencies when the samples are in time order\<close>

lemma flaten_True_sorted_spikes:
  assumes "flaten tms indices True = Inr (tF, kF, nF)"
  shows "zip tF kF = sort (spikes tms indices)"
proof -
  from flaten_Inr[OF assms] obtain F where F: "flaten_units 0 tms indices = Inr F"
    and S: "let S = (if True then sort_key (\<lambda>e. (fst e, fst (snd e))) F else sort_key fst F)
            in tF = map fst S \<and> kF = map (\<lambda>e. fst (snd e)) S \<and> nF = map (\<lambda>e. snd (snd e)) S"
    by blast
  define S where "S = sort_key (\<lambda>e. (fst e, fst (snd e))) F"
  from S have tF: "tF = map fst S" and kF: "kF = map (\<lambda>e. fst (snd e)) S"
    by (simp_all add: S_def Let_def)
  from flaten_units_Inr[OF F] have Fp: "F = pooled 0 tms indices" by blast
  have "map (\<lambda>e. (fst e, fst (snd e))) S = sort_key (\<lambda>x. x) (map (\<lambda>e. (fst e, fst (snd e))) F)"
    unfolding S_def by (rule sort_key_map)
  also have "\<dots> = sort (spikes tms indices)" by (simp only: Fp pooled_spikes)
  finally have "map (\<lambda>e. (fst e, fst (snd e))) S = sort (spikes tms indices)" .
  moreover have "zip tF kF = map (\<lambda>e. (fst e, fst (snd e))) S"
    by (simp add: tF kF zip_map_map zip_same_conv_map)
  ultimately show ?thesis by simp
qed

lemma latest_position:
  fixes S :: "(real \<times> int) list" and k :: int
  assumes srt: "sorted S" and ks: "sorted (map snd S)"
  defines "r \<equiv> bisect_right (map snd S) k 0 (length S)"
  shows "k \<in> set (map snd S) \<Longrightarrow> 0 < r \<and> r \<le> length S \<and> snd (S ! (r - 1)) = k
           \<and> fst (S ! (r - 1)) = latest S k"
    and "k \<notin> set (map snd S) \<Longrightarrow> r = 0 \<or> (r \<le> length S \<and> snd (S ! (r - 1)) \<noteq> k)"
proof -
  have b0: "r \<le> length S \<and> (\<forall>i<r. map snd S ! i \<le> k)
       \<and> (\<forall>i. r \<le> i \<and> i < length S \<longrightarrow> k < map snd S ! i)"
    by (rule bisect_right_sorted[OF ks, of "length (map snd S)" 0 k,
          unfolded length_map, folded r_def]) simp_all
  have b: "r \<le> length S" "\<forall>i<r. map snd S ! i \<le> k"
    "\<forall>i. r \<le> i \<and> i < length S \<longrightarrow> k < map snd S ! i"
    using b0 by blast+
  {
    assume "k \<in> set (map snd S)"
    then obtain i where i: "i < length S" "snd (S ! i) = k" by (auto simp: in_set_conv_nth)
    have ir: "i < r"
    proof (rule ccontr)
      assume "\<not> i < r"
      with b(3) i(1) have "k < map snd S ! i" by simp
      with i show False by simp
    qed
    then have pos: "0 < r" by simp
    have rl: "r - 1 < length S" using b(1) pos by simp
    have "snd (S ! (r - 1)) \<le> k" using b(2) pos rl by (metis diff_less nth_map zero_less_one)
    moreover have "k \<le> snd (S ! (r - 1))"
    proof -
      have "map snd S ! i \<le> map snd S ! (r - 1)"
        using ks ir rl by (intro sorted_nth_mono) simp_all
      then show ?thesis using i rl by simp
    qed
    ultimately have eq: "snd (S ! (r - 1)) = k" by simp
    define A where "A = set (map fst (filter (\<lambda>e. snd e = k) S))"
    have mem: "fst (S ! (r - 1)) \<in> A"
      using rl eq unfolding A_def by (metis (mono_tags, lifting) image_eqI mem_Collect_eq nth_mem set_filter set_map)
    have ub: "t \<le> fst (S ! (r - 1))" if "t \<in> A" for t
    proof -
      from that obtain e where e: "e \<in> set S" "snd e = k" "fst e = t" by (auto simp: A_def)
      then obtain j where j: "j < length S" "S ! j = e" by (auto simp: in_set_conv_nth)
      have "j < r"
      proof (rule ccontr)
        assume "\<not> j < r"
        with b(3) j(1) have "k < map snd S ! j" by simp
        with j e show False by simp
      qed
      then have "S ! j \<le> S ! (r - 1)" using srt rl by (intro sorted_nth_mono) simp_all
      then have "fst (S ! j) \<le> fst (S ! (r - 1))" by (auto simp: less_eq_prod_def)
      with j e show ?thesis by simp
    qed
    have "Max A = fst (S ! (r - 1))"
      by (rule Max_eqI) (use mem ub in \<open>simp_all add: A_def\<close>)
    then show "0 < r \<and> r \<le> length S \<and> snd (S ! (r - 1)) = k \<and> fst (S ! (r - 1)) = latest S k"
      using pos b(1) eq by (simp add: latest_def A_def)
  }
  {
    assume nk: "k \<notin> set (map snd S)"
    show "r = 0 \<or> (r \<le> length S \<and> snd (S ! (r - 1)) \<noteq> k)"
    proof (cases "r = 0")
      case True
      then show ?thesis by simp
    next
      case False
      then have "r - 1 < length S" using b(1) by simp
      then have "snd (S ! (r - 1)) \<in> set (map snd S)" by (metis length_map nth_map nth_mem)
      with nk b(1) show ?thesis by auto
    qed
  }
qed


lemma latest_sort: "latest (sort sp) k = latest sp k"
  by (simp add: latest_def)

lemma sample_latency_sorted:
  assumes fi: "flaten it ii True = Inr (tIn, kIn, nIn)"
    and fo: "flaten ot oi True = Inr (tOut, kOut, nOut)"
    and oi: "samples_in_time_order it ii" and oo: "samples_in_time_order ot oi"
  shows "sample_latency tIn kIn tOut kOut k
         = latency_spec \<lparr>na_input_times = it, na_input_indices = ii,
                          na_output_times = ot, na_output_indices = oi\<rparr> k"
proof -
  define Si where "Si = sort (spikes it ii)"
  define So where "So = sort (spikes ot oi)"
  have zi: "zip tIn kIn = Si" unfolding Si_def by (rule flaten_True_sorted_spikes[OF fi])
  have zo: "zip tOut kOut = So" unfolding So_def by (rule flaten_True_sorted_spikes[OF fo])
  have li: "length kIn = length tIn" using flaten_facts(2)[OF fi] .
  have lo: "length kOut = length tOut" using flaten_facts(2)[OF fo] .
  have tIn: "tIn = map fst Si" and kIn: "kIn = map snd Si" using zi li by auto
  have tOut: "tOut = map fst So" and kOut: "kOut = map snd So" using zo lo by auto
  have si: "sorted Si" "sorted (map snd Si)"
    using oi by (simp_all add: Si_def samples_in_time_order_def)
  have so: "sorted So" "sorted (map snd So)"
    using oo by (simp_all add: So_def samples_in_time_order_def)
  define ri where "ri = bisect_right (map snd Si) k 0 (length Si)"
  define ro where "ro = bisect_right (map snd So) k 0 (length So)"
  note pi = latest_position[OF si, of k, folded ri_def]
  note po = latest_position[OF so, of k, folded ro_def]
  have mi: "k \<in> set (map snd Si) \<longleftrightarrow> k \<in> set (map snd (spikes it ii))" by (simp add: Si_def)
  have mo: "k \<in> set (map snd So) \<longleftrightarrow> k \<in> set (map snd (spikes ot oi))" by (simp add: So_def)
  have lat: "latest Si k = latest (spikes it ii) k" "latest So k = latest (spikes ot oi) k"
    by (simp_all add: Si_def So_def latest_sort)
  have sl: "sample_latency tIn kIn tOut kOut k
      = (if int ri - 1 < 0 \<or> int ro - 1 < 0 \<or> map snd Si ! nat (int ri - 1) \<noteq> k
            \<or> map snd So ! nat (int ro - 1) \<noteq> k
         then Infinite
         else Latency (map fst So ! nat (int ro - 1) - map fst Si ! nat (int ri - 1)))"
    by (simp add: sample_latency_def Let_def tIn kIn tOut kOut ri_def ro_def)
  show ?thesis
  proof (cases "k \<in> set (map snd Si) \<and> k \<in> set (map snd So)")
    case True
    from pi(1) True have a: "0 < ri" "ri \<le> length Si" "snd (Si ! (ri - 1)) = k"
      "fst (Si ! (ri - 1)) = latest Si k" by simp_all
    from po(1) True have b: "0 < ro" "ro \<le> length So" "snd (So ! (ro - 1)) = k"
      "fst (So ! (ro - 1)) = latest So k" by simp_all
    have ni: "nat (int ri - 1) = ri - 1" and no: "nat (int ro - 1) = ro - 1" by simp_all
    have "ri - 1 < length Si" "ro - 1 < length So" using a(1,2) b(1,2) by simp_all
    then have "sample_latency tIn kIn tOut kOut k = Latency (latest So k - latest Si k)"
      unfolding sl ni no using a b by simp
    with True mi mo lat show ?thesis by (simp add: latency_spec_def)
  next
    case False
    have "sample_latency tIn kIn tOut kOut k = Infinite"
    proof (cases "k \<in> set (map snd Si)")
      case inI: False
      from pi(2)[OF inI] have "ri = 0 \<or> (ri \<le> length Si \<and> snd (Si ! (ri - 1)) \<noteq> k)" .
      then show ?thesis
      proof
        assume "ri = 0"
        then show ?thesis unfolding sl by simp
      next
        assume r: "ri \<le> length Si \<and> snd (Si ! (ri - 1)) \<noteq> k"
        show ?thesis
        proof (cases "ri = 0")
          case True
          then show ?thesis unfolding sl by simp
        next
          case False
          then have "nat (int ri - 1) = ri - 1" "ri - 1 < length Si" using r by auto
          with r show ?thesis unfolding sl by simp
        qed
      qed
    next
      case True
      with False have inO: "k \<notin> set (map snd So)" by simp
      from po(2)[OF inO] have "ro = 0 \<or> (ro \<le> length So \<and> snd (So ! (ro - 1)) \<noteq> k)" .
      then show ?thesis
      proof
        assume "ro = 0"
        then show ?thesis unfolding sl by simp
      next
        assume r: "ro \<le> length So \<and> snd (So ! (ro - 1)) \<noteq> k"
        show ?thesis
        proof (cases "ro = 0")
          case True
          then show ?thesis unfolding sl by simp
        next
          case False
          then have "nat (int ro - 1) = ro - 1" "ro - 1 < length So" using r by auto
          with r show ?thesis unfolding sl by simp
        qed
      qed
    qed
    with False mi mo show ?thesis by (simp add: latency_spec_def)
  qed
qed

lemma calculate_latencies_sample_order:
  assumes "na_input_times a \<noteq> []" and "na_output_times a \<noteq> []"
    and "parallel (na_input_times a) (na_input_indices a)"
    and "parallel (na_output_times a) (na_output_indices a)"
    and "spikes (na_input_times a) (na_input_indices a) \<noteq> []"
    and "samples_in_time_order (na_input_times a) (na_input_indices a)"
    and "samples_in_time_order (na_output_times a) (na_output_indices a)"
  shows "calculate_latencies a
         = (let N = Max (set (map snd (spikes (na_input_times a) (na_input_indices a)))) + 1
            in if N < 0 then Inl ValueError else Inr (map (latency_spec a) [0..N - 1]))"
proof -
  from flaten_ok[OF assms(3,1)] obtain ri
    where ri: "flaten (na_input_times a) (na_input_indices a) True = Inr ri" by blast
  obtain tIn kIn nIn where ri': "ri = (tIn, kIn, nIn)" by (cases ri) auto
  from flaten_ok[OF assms(4,2)] obtain ro
    where ro: "flaten (na_output_times a) (na_output_indices a) True = Inr ro" by blast
  obtain tOut kOut nOut where ro': "ro = (tOut, kOut, nOut)" by (cases ro) auto
  have kIn: "kIn = map snd (sort (spikes (na_input_times a) (na_input_indices a)))"
    by (rule flaten_True_samples(1)[OF ri[unfolded ri']])
  then have ne: "kIn \<noteq> []" using assms(5) by (metis length_0_conv length_map length_sort)
  have mx: "py_max kIn = Inr (Max (set (map snd (spikes (na_input_times a) (na_input_indices a)))))"
    using py_max_Max[OF ne] by (simp add: kIn)
  have lat: "sample_latency tIn kIn tOut kOut = latency_spec a"
  proof
    fix k
    have "a = \<lparr>na_input_times = na_input_times a, na_input_indices = na_input_indices a,
               na_output_times = na_output_times a, na_output_indices = na_output_indices a\<rparr>"
      by simp
    with sample_latency_sorted[OF ri[unfolded ri'] ro[unfolded ro'] assms(6,7), of k]
    show "sample_latency tIn kIn tOut kOut k = latency_spec a k" by simp
  qed
  show ?thesis
    by (simp add: calculate_latencies_def ri ri' ro ro' mx lat Let_def)
qed

subsection \<open>The encoder\<close>

lemma fold_result_inv:
  assumes "fold_result f xs s = Inr s'" and "P s"
    and "\<And>x s s'. x \<in> set xs \<Longrightarrow> P s \<Longrightarrow> f x s = Inr s' \<Longrightarrow> P s'"
  shows "P s'"
  using assms
proof (induction xs arbitrary: s)
  case Nil
  then show ?case by simp
next
  case (Cons x xs)
  from Cons.prems(1) obtain s1 where s1: "f x s = Inr s1" "fold_result f xs s1 = Inr s'"
    by (auto simp: bind_result_Inr_iff)
  have P1: "P s1" using Cons.prems(3)[of x s s1] Cons.prems(2) s1(1) by simp
  show ?case
  proof (rule Cons.IH[OF s1(2) P1])
    fix z t t' assume "z \<in> set xs" "P t" "f z t = Inr t'"
    then show "P t'" using Cons.prems(3)[of z t t'] by simp
  qed
qed


lemma fold_result_total:
  assumes "\<And>x s. x \<in> set xs \<Longrightarrow> \<exists>s'. f x s = Inr s'"
  shows "\<exists>s'. fold_result f xs s = Inr s'"
  using assms
proof (induction xs arbitrary: s)
  case Nil
  show ?case by simp
next
  case (Cons x xs)
  from Cons.prems[of x s] obtain s1 where "f x s = Inr s1" by auto
  moreover from Cons.IH[of s1] Cons.prems obtain s' where "fold_result f xs s1 = Inr s'" by auto
  ultimately show ?case by simp
qed

lemma spike_train_loop_length: "length (fst (spike_train_loop p offs js g)) = length js"
  by (induction js arbitrary: g) (simp_all add: case_prod_unfold Let_def)

lemma build_spike_train_length: "length (fst (build_spike_train p offs g)) = burst_size p"
  by (simp add: build_spike_train_def case_prod_unfold Let_def spike_train_loop_length)

lemma np_min_Min: "xs \<noteq> [] \<Longrightarrow> np_min xs = Inr (Min (set xs))"
proof (cases xs)
  case Nil
  assume "xs \<noteq> []"
  with Nil show ?thesis by simp
next
  case (Cons a list)
  show ?thesis unfolding Cons using Min.set_eq_fold[of a list] by simp
qed


lemma emit_train_Inr:
  assumes "emit_train p x st = Inr st'"
  shows "\<exists>train g. build_spike_train p (enc_t st) (enc_rng st) = (train, g) \<and> train \<noteq> []
           \<and> length train = burst_size p
           \<and> st' = st\<lparr>enc_T := (enc_T st)[x := enc_T st ! x @ train],
                      enc_K := (enc_K st)[x := enc_K st ! x @ replicate (burst_size p) (enc_sIdx st)],
                      enc_min_t := Some (case enc_min_t st of None \<Rightarrow> Min (set train)
                                         | Some mt \<Rightarrow> min mt (Min (set train))),
                      enc_rng := g\<rparr>"
proof -
  obtain train g where b: "build_spike_train p (enc_t st) (enc_rng st) = (train, g)"
    by (cases "build_spike_train p (enc_t st) (enc_rng st)") auto
  have len: "length train = burst_size p"
    using build_spike_train_length[of p "enc_t st" "enc_rng st"] b by simp
  have ne: "train \<noteq> []" using assms b by (cases train) (simp_all add: emit_train_def)
  with assms b len show ?thesis
    by (simp add: emit_train_def np_min_Min)
qed


lemma set_concat_update_append:
  "x < length T \<Longrightarrow> set (concat (T[x := T ! x @ ys])) = set (concat T) \<union> set ys"
proof (induction T arbitrary: x)
  case Nil
  then show ?case by simp
next
  case (Cons row T)
  show ?case
  proof (cases x)
    case 0
    then show ?thesis by auto
  next
    case (Suc x')
    with Cons.prems have "x' < length T" by simp
    from Cons.IH[OF this] Suc show ?thesis by auto
  qed
qed

lemma emit_train_enc_inv:
  assumes "emit_train p x st = Inr st'" and "enc_inv R st" and "x < R"
  shows "enc_inv R st'"
proof -
  from emit_train_Inr[OF assms(1)] obtain train g where tr: "train \<noteq> []"
    "length train = burst_size p"
    and st': "st' = st\<lparr>enc_T := (enc_T st)[x := enc_T st ! x @ train],
                      enc_K := (enc_K st)[x := enc_K st ! x @ replicate (burst_size p) (enc_sIdx st)],
                      enc_min_t := Some (case enc_min_t st of None \<Rightarrow> Min (set train)
                                         | Some mt \<Rightarrow> min mt (Min (set train))),
                      enc_rng := g\<rparr>" by blast
  from assms(2) have len: "length (enc_T st) = R" "length (enc_K st) = R"
    and par: "parallel (enc_T st) (enc_K st)" by (simp_all add: enc_inv_def)
  have xT: "x < length (enc_T st)" using len assms(3) by simp
  have rowlen: "length (enc_T st ! x) = length (enc_K st ! x)"
    using par xT by (simp add: parallel_def list_all2_conv_all_nth)
  have par': "parallel ((enc_T st)[x := enc_T st ! x @ train])
                ((enc_K st)[x := enc_K st ! x @ replicate (burst_size p) (enc_sIdx st)])"
    using par rowlen tr(2) unfolding parallel_def by (intro list_all2_update_cong) simp_all
  have sets: "set (concat ((enc_T st)[x := enc_T st ! x @ train])) = set (concat (enc_T st)) \<union> set train"
    by (rule set_concat_update_append[OF xT])
  have ne': "concat ((enc_T st)[x := enc_T st ! x @ train]) \<noteq> []"
    using sets tr(1) by (metis Un_empty set_empty)
  have mn: "(case enc_min_t st of None \<Rightarrow> Min (set train) | Some mt \<Rightarrow> min mt (Min (set train)))
          = Min (set (concat ((enc_T st)[x := enc_T st ! x @ train])))"
  proof (cases "enc_min_t st")
    case None
    with assms(2) have "concat (enc_T st) = []" by (simp add: enc_inv_def)
    with None sets show ?thesis by simp
  next
    case (Some mt)
    with assms(2) have "concat (enc_T st) \<noteq> []" "mt = Min (set (concat (enc_T st)))"
      by (simp_all add: enc_inv_def)
    with Some sets tr(1) show ?thesis by (simp add: Min_Un)
  qed
  show ?thesis
    unfolding enc_inv_def st' using len par' ne' mn by simp
qed

lemma unit_index_bound: "i < m \<Longrightarrow> j < s \<Longrightarrow> i * s + j < s * (m::nat)"
proof -
  assume "i < m" "j < s"
  then have "i * s + j < i * s + s" by simp
  also have "\<dots> = Suc i * s" by simp
  also have "\<dots> \<le> m * s" using \<open>i < m\<close> by (intro mult_le_mono1) simp
  finally show ?thesis by (simp add: mult.commute)
qed

lemma encode_bit_inv:
  assumes "encode_bit X s p l i st = Inr st'" and "P st" and "i < m"
    and step: "\<And>x st st'. x < s * m \<Longrightarrow> P st \<Longrightarrow> emit_train p x st = Inr st' \<Longrightarrow> P st'"
  shows "P st'"
proof (cases "X ! l ! i \<noteq> 0")
  case False
  with assms(1,2) show ?thesis by (simp add: encode_bit_def)
next
  case True
  with assms(1) have f: "fold_result (\<lambda>j. emit_train p (i * s + j)) [0..<s] st = Inr st'"
    by (simp add: encode_bit_def)
  show ?thesis
  proof (rule fold_result_inv[where P = P, OF f assms(2)])
    fix j t t' assume "j \<in> set [0..<s]" "P t" "emit_train p (i * s + j) t = Inr t'"
    then show "P t'" using step[of "i * s + j" t t'] unit_index_bound[OF assms(3), of j s] by simp
  qed
qed

lemma encode_sample_inv:
  assumes "encode_sample X m s p l st = Inr st'" and "P st"
    and step: "\<And>x st st'. x < s * m \<Longrightarrow> P st \<Longrightarrow> emit_train p x st = Inr st' \<Longrightarrow> P st'"
    and adv: "\<And>st. P st \<Longrightarrow> P (st\<lparr>enc_sIdx := enc_sIdx st + 1, enc_t := enc_t st + time_window p\<rparr>)"
  shows "P st'"
proof -
  from assms(1) obtain st1 where f: "fold_result (encode_bit X s p l) [0..<m] st = Inr st1"
    and st': "st' = st1\<lparr>enc_sIdx := enc_sIdx st1 + 1, enc_t := enc_t st1 + time_window p\<rparr>"
    by (auto simp: encode_sample_def bind_result_Inr_iff)
  have "P st1"
  proof (rule fold_result_inv[where P = P, OF f assms(2)])
    fix i t t' assume "i \<in> set [0..<m]" "P t" "encode_bit X s p l i t = Inr t'"
    then show "P t'" using encode_bit_inv[of X s p l i t t' P m] step by simp
  qed
  then show ?thesis unfolding st' by (rule adv)
qed

lemma encode_params_inv:
  assumes "encode_params X m s k d p st = Inr st'" and "P st"
    and step: "\<And>x st st'. x < s * m \<Longrightarrow> P st \<Longrightarrow> emit_train p x st = Inr st' \<Longrightarrow> P st'"
    and adv: "\<And>st. P st \<Longrightarrow> P (st\<lparr>enc_sIdx := enc_sIdx st + 1, enc_t := enc_t st + time_window p\<rparr>)"
    and fin: "\<And>st. P st \<Longrightarrow> P (st\<lparr>enc_t := enc_t st + time_window p * d\<rparr>)"
  shows "P st'"
proof -
  from assms(1) obtain st1 where f: "fold_result (encode_sample X m s p) [0..<k] st = Inr st1"
    and st': "st' = st1\<lparr>enc_t := enc_t st1 + time_window p * d\<rparr>"
    by (auto simp: encode_params_def bind_result_Inr_iff)
  have "P st1"
  proof (rule fold_result_inv[where P = P, OF f assms(2)])
    fix l t t' assume "l \<in> set [0..<k]" "P t" "encode_sample X m s p l t = Inr t'"
    then show "P t'" using encode_sample_inv[of X m s p l t t' P] step adv by simp
  qed
  then show ?thesis unfolding st' by (rule fin)
qed

lemma encode_loops_enc_inv:
  assumes "encode_loops b k s ps d g = Inr st"
  shows "enc_inv (s * nb_m b) st"
proof (rule fold_result_inv[where P = "enc_inv (s * nb_m b)", OF assms[unfolded encode_loops_def]])
  show "enc_inv (s * nb_m b)
          \<lparr>enc_T = replicate (s * nb_m b) [], enc_K = replicate (s * nb_m b) [],
           enc_t = 0, enc_sIdx = 0, enc_min_t = None, enc_rng = g\<rparr>"
    by (simp add: enc_inv_def parallel_def list_all2_conv_all_nth)
next
  fix p t t'
  assume "p \<in> set ps" and inv: "enc_inv (s * nb_m b) t"
    and e: "encode_params (mat_in b) (nb_m b) s k d p t = Inr t'"
  show "enc_inv (s * nb_m b) t'"
  proof (rule encode_params_inv[where P = "enc_inv (s * nb_m b)", OF e inv])
    fix x st st'
    assume "x < s * nb_m b" "enc_inv (s * nb_m b) st" "emit_train p x st = Inr st'"
    then show "enc_inv (s * nb_m b) st'" using emit_train_enc_inv by blast
  next
    fix st assume "enc_inv (s * nb_m b) st"
    then show "enc_inv (s * nb_m b)
                 (st\<lparr>enc_sIdx := enc_sIdx st + 1, enc_t := enc_t st + time_window p\<rparr>)"
      by (simp add: enc_inv_def split: option.splits)
  next
    fix st assume "enc_inv (s * nb_m b) st"
    then show "enc_inv (s * nb_m b) (st\<lparr>enc_t := enc_t st + time_window p * d\<rparr>)"
      by (simp add: enc_inv_def split: option.splits)
  qed
qed












lemma argsort_row_pairs:
  assumes "length krow = length row"
  shows "map (\<lambda>i. row ! i) (argsort row) = map fst (sort_key fst (zip row krow))"
    and "map (\<lambda>i. krow ! i) (argsort row) = map snd (sort_key fst (zip row krow))"
proof -
  have r: "map fst (zip row krow) = row" and k: "map snd (zip row krow) = krow"
    using assms by simp_all
  show "map (\<lambda>i. row ! i) (argsort row) = map fst (sort_key fst (zip row krow))"
    using argsort_take[of fst "zip row krow" fst] by (simp only: r)
  show "map (\<lambda>i. krow ! i) (argsort row) = map snd (sort_key fst (zip row krow))"
    using argsort_take[of snd "zip row krow" fst] by (simp only: r k)
qed

lemma build_input_Inr:
  assumes "build_input b k time_offs s ps d g = Inr ((tms, ixs, spl), g')"
  shows "\<exists>st. encode_loops b (clamp_k b k) s ps d g = Inr st \<and> clamp_k b k \<noteq> 0
           \<and> g' = enc_rng st
           \<and> tms = map (\<lambda>row. map (\<lambda>i. row ! i) (argsort row))
                         (map (map (shift_time (enc_min_t st) time_offs)) (enc_T st))
           \<and> ixs = map2 (\<lambda>row krow. map (\<lambda>i. krow ! i) (argsort row))
                         (map (map (shift_time (enc_min_t st) time_offs)) (enc_T st)) (enc_K st)
           \<and> spl = map (\<lambda>c. int (c * clamp_k b k)) [1..<length ps + 1]"
proof -
  from assms obtain st where st: "encode_loops b (clamp_k b k) s ps d g = Inr st"
    by (cases "encode_loops b (clamp_k b k) s ps d g")
       (simp_all add: build_input_def Let_def split: if_splits)
  with assms show ?thesis
    by (auto simp: build_input_def Let_def split: if_splits)
qed

lemma build_input_rows:
  fixes time_offs :: real
  assumes enc: "encode_loops b k' s ps d g = Inr st" and x: "x < s * nb_m b"
  defines "T \<equiv> map (map (shift_time (enc_min_t st) time_offs)) (enc_T st)"
  defines "tms \<equiv> map (\<lambda>row. map (\<lambda>i. row ! i) (argsort row)) T"
  defines "ixs \<equiv> map2 (\<lambda>row krow. map (\<lambda>i. krow ! i) (argsort row)) T (enc_K st)"
  shows "zip (tms ! x) (ixs ! x) = sort_key fst (zip (T ! x) (enc_K st ! x))"
    and "tms ! x = map fst (sort_key fst (zip (T ! x) (enc_K st ! x)))"
    and "ixs ! x = map snd (sort_key fst (zip (T ! x) (enc_K st ! x)))"
    and "length tms = s * nb_m b" and "length ixs = s * nb_m b"
proof -
  from encode_loops_enc_inv[OF enc] have len: "length (enc_T st) = s * nb_m b"
    "length (enc_K st) = s * nb_m b" and par: "parallel (enc_T st) (enc_K st)"
    by (simp_all add: enc_inv_def)
  have lenT: "length T = s * nb_m b" by (simp add: T_def len)
  have rowlen: "length (enc_K st ! x) = length (T ! x)"
    using par x len by (simp add: T_def parallel_def list_all2_conv_all_nth)
  show lt: "length tms = s * nb_m b" by (simp add: tms_def lenT)
  show li: "length ixs = s * nb_m b" by (simp add: ixs_def lenT len)
  have tx: "tms ! x = map (\<lambda>i. (T ! x) ! i) (argsort (T ! x))"
    using x lenT by (simp add: tms_def)
  have ix: "ixs ! x = map (\<lambda>i. (enc_K st ! x) ! i) (argsort (T ! x))"
    using x lenT len by (simp add: ixs_def)
  show t: "tms ! x = map fst (sort_key fst (zip (T ! x) (enc_K st ! x)))"
    unfolding tx by (rule argsort_row_pairs(1)[OF rowlen])
  show i: "ixs ! x = map snd (sort_key fst (zip (T ! x) (enc_K st ! x)))"
    unfolding ix by (rule argsort_row_pairs(2)[OF rowlen])
  show "zip (tms ! x) (ixs ! x) = sort_key fst (zip (T ! x) (enc_K st ! x))"
    unfolding t i by (simp add: zip_map_fst_snd)
qed



subsection \<open>The encoder without jitter\<close>

lemma spike_train_loop_no_jitter:
  "sigma_t p = 0 \<Longrightarrow>
     spike_train_loop p offs js g = (map (\<lambda>i. offs + real i * isi p) js, g)"
  by (induction js) simp_all

lemma build_spike_train_no_jitter:
  assumes "sigma_t p = 0" and "sigma_t_offs p = 0"
  shows "build_spike_train p offs g
         = (sort (map (\<lambda>i. offs + real i * isi p) [0..<burst_size p]), g)"
  using assms by (simp add: build_spike_train_def spike_train_loop_no_jitter)

lemma train_bounds:
  assumes "0 \<le> isi p" and "v \<in> set (sort (map (\<lambda>i. offs + real i * isi p) [0..<burst_size p]))"
  shows "offs \<le> v \<and> v \<le> offs + real (burst_size p - 1) * isi p"
proof -
  from assms(2) obtain i where i: "i < burst_size p" "v = offs + real i * isi p" by auto
  have "0 \<le> real i * isi p" using assms(1) by simp
  moreover have "real i * isi p \<le> real (burst_size p - 1) * isi p"
    using i(1) assms(1) by (intro mult_right_mono) simp_all
  ultimately show ?thesis using i(2) by simp
qed

lemma spikes_Cons [simp]: "spikes (ts # tss) (ks # kss) = zip ts ks @ spikes tss kss"
  by (simp add: spikes_def)

lemma spikes_Nil [simp]: "spikes [] kss = []" "spikes tss [] = []"
  by (simp_all add: spikes_def)

lemma set_spikes_update_append:
  assumes "parallel T K" and "x < length T" and "length ys = length zs"
  shows "set (spikes (T[x := T ! x @ ys]) (K[x := K ! x @ zs])) = set (spikes T K) \<union> set (zip ys zs)"
  using assms unfolding parallel_def
proof (induction T K arbitrary: x rule: list_all2_induct)
  case Nil
  then show ?case by simp
next
  case (Cons row T krow K)
  show ?case
  proof (cases x)
    case 0
    with Cons.hyps(1) Cons.prems(2) show ?thesis by auto
  next
    case (Suc x')
    with Cons.prems have "x' < length T" by simp
    from Cons.IH[OF this Cons.prems(2)] Suc show ?thesis by auto
  qed
qed

lemma set_spikes_nth:
  "set (spikes tss kss) = (\<Union>x<min (length tss) (length kss). set (zip (tss ! x) (kss ! x)))"
proof -
  define n where "n = min (length tss) (length kss)"
  have "zip tss kss = map (\<lambda>x. (tss ! x, kss ! x)) [0..<n]"
    by (intro nth_equalityI) (simp_all add: n_def)
  then have "spikes tss kss = concat (map (\<lambda>x. zip (tss ! x) (kss ! x)) [0..<n])"
    by (simp add: spikes_def comp_def)
  then have "set (spikes tss kss) = (\<Union>x\<in>set [0..<n]. set (zip (tss ! x) (kss ! x)))"
    by simp
  also have "set [0..<n] = {..<n}" by auto
  finally show ?thesis by (simp only: n_def)
qed


lemma samples_ordered_Un:
  assumes "samples_ordered old"
    and "\<forall>(t1, k1)\<in>set old. (k1 < c \<and> t1 < t) \<or> (k1 = c \<and> t \<le> t1)"
    and "\<forall>(t2, k2)\<in>set new. k2 = c \<and> t \<le> t2"
    and "set sp = set old \<union> set new"
  shows "samples_ordered sp"
  unfolding samples_ordered_def
proof (clarify)
  fix t1 t2 :: real and k1 k2 :: int
  assume a: "(t1, k1) \<in> set sp" "(t2, k2) \<in> set sp" "k1 < k2"
  from a(1,2) assms(4) consider
      (oo) "(t1, k1) \<in> set old" "(t2, k2) \<in> set old"
    | (on) "(t1, k1) \<in> set old" "(t2, k2) \<in> set new"
    | (no) "(t1, k1) \<in> set new" "(t2, k2) \<in> set old"
    | (nn) "(t1, k1) \<in> set new" "(t2, k2) \<in> set new" by auto
  then show "t1 < t2"
  proof cases
    case oo
    with assms(1) a(3) show ?thesis unfolding samples_ordered_def by blast
  next
    case on
    from on(2) assms(3) have n: "k2 = c" "t \<le> t2" by auto
    from on(1) assms(2) have "(k1 < c \<and> t1 < t) \<or> (k1 = c \<and> t \<le> t1)" by auto
    with n a(3) show ?thesis by auto
  next
    case no
    from no(1) assms(3) have n: "k1 = c" by auto
    from no(2) assms(2) have "(k2 < c \<and> t2 < t) \<or> (k2 = c \<and> t \<le> t2)" by auto
    with n a(3) show ?thesis by auto
  next
    case nn
    with assms(3) have "k1 = c" "k2 = c" by auto
    with a(3) show ?thesis by simp
  qed
qed

lemma emit_train_order_in:
  assumes e: "emit_train p x st = Inr st'"
    and nj: "sigma_t p = 0" "sigma_t_offs p = 0" and isi: "0 \<le> isi p"
    and inv: "enc_inv R st" and x: "x < R" and ord: "enc_order_in p st"
  shows "enc_order_in p st'"
proof -
  from emit_train_Inr[OF e] obtain train g
    where b: "build_spike_train p (enc_t st) (enc_rng st) = (train, g)"
      and len: "length train = burst_size p"
      and st': "st' = st\<lparr>enc_T := (enc_T st)[x := enc_T st ! x @ train],
                      enc_K := (enc_K st)[x := enc_K st ! x @ replicate (burst_size p) (enc_sIdx st)],
                      enc_min_t := Some (case enc_min_t st of None \<Rightarrow> Min (set train)
                                         | Some mt \<Rightarrow> min mt (Min (set train))),
                      enc_rng := g\<rparr>" by blast
  from b build_spike_train_no_jitter[OF nj, of "enc_t st" "enc_rng st"]
  have train: "train = sort (map (\<lambda>i. enc_t st + real i * isi p) [0..<burst_size p])" by simp
  define new where "new = zip train (replicate (burst_size p) (enc_sIdx st))"
  from inv have par: "parallel (enc_T st) (enc_K st)" and xT: "x < length (enc_T st)"
    using x by (simp_all add: enc_inv_def)
  have sp: "set (spikes (enc_T st') (enc_K st')) = set (spikes (enc_T st) (enc_K st)) \<union> set new"
    unfolding st' new_def using set_spikes_update_append[OF par xT, of train] len by simp
  have newb: "\<forall>(t2, k2)\<in>set new. k2 = enc_sIdx st \<and> enc_t st \<le> t2
                \<and> t2 \<le> enc_t st + real (burst_size p - 1) * isi p"
  proof (clarify)
    fix t2 k2 assume m: "(t2, k2) \<in> set new"
    then have "t2 \<in> set train" "k2 \<in> set (replicate (burst_size p) (enc_sIdx st))"
      unfolding new_def by (auto dest: set_zip_leftD set_zip_rightD)
    then show "k2 = enc_sIdx st \<and> enc_t st \<le> t2
                \<and> t2 \<le> enc_t st + real (burst_size p - 1) * isi p"
      using train_bounds[OF isi, of t2 "enc_t st"] train by auto
  qed
  from ord have old: "\<forall>(t1, k1)\<in>set (spikes (enc_T st) (enc_K st)).
          (k1 < enc_sIdx st \<and> t1 < enc_t st)
          \<or> (k1 = enc_sIdx st \<and> enc_t st \<le> t1
              \<and> t1 \<le> enc_t st + real (burst_size p - 1) * isi p)"
    and so: "samples_ordered (spikes (enc_T st) (enc_K st))" by (simp_all add: enc_order_in_def)
  have so': "samples_ordered (spikes (enc_T st') (enc_K st'))"
  proof (rule samples_ordered_Un[OF so _ _ sp])
    show "\<forall>(t1, k1)\<in>set (spikes (enc_T st) (enc_K st)).
            (k1 < enc_sIdx st \<and> t1 < enc_t st) \<or> (k1 = enc_sIdx st \<and> enc_t st \<le> t1)"
      using old by auto
    show "\<forall>(t2, k2)\<in>set new. k2 = enc_sIdx st \<and> enc_t st \<le> t2" using newb by auto
  qed
  have tk: "enc_t st' = enc_t st" "enc_sIdx st' = enc_sIdx st" by (simp_all add: st')
  have "\<forall>(t1, k1)\<in>set (spikes (enc_T st') (enc_K st')).
          (k1 < enc_sIdx st' \<and> t1 < enc_t st')
          \<or> (k1 = enc_sIdx st' \<and> enc_t st' \<le> t1
              \<and> t1 \<le> enc_t st' + real (burst_size p - 1) * isi p)"
    unfolding sp tk using old newb by auto
  with so' show ?thesis by (simp add: enc_order_in_def)
qed


lemma encode_sample_enc_inv:
  assumes "encode_sample X m s p l st = Inr st'" and "enc_inv (s * m) st"
  shows "enc_inv (s * m) st'"
proof (rule encode_sample_inv[where P = "enc_inv (s * m)", OF assms])
  fix x t t' assume "x < s * m" "enc_inv (s * m) t" "emit_train p x t = Inr t'"
  then show "enc_inv (s * m) t'" using emit_train_enc_inv by blast
next
  fix t assume "enc_inv (s * m) t"
  then show "enc_inv (s * m) (t\<lparr>enc_sIdx := enc_sIdx t + 1, enc_t := enc_t t + time_window p\<rparr>)"
    by (simp add: enc_inv_def split: option.splits)
qed

lemma encode_sample_order:
  assumes e: "encode_sample X m s p l st = Inr st'"
    and nj: "sigma_t p = 0" "sigma_t_offs p = 0"
    and isi: "0 \<le> isi p" and win: "real (burst_size p - 1) * isi p < time_window p"
    and inv: "enc_inv (s * m) st" and ord: "enc_order st"
  shows "enc_order st'"
proof -
  from e obtain st1 where f: "fold_result (encode_bit X s p l) [0..<m] st = Inr st1"
    and st': "st' = st1\<lparr>enc_sIdx := enc_sIdx st1 + 1, enc_t := enc_t st1 + time_window p\<rparr>"
    by (auto simp: encode_sample_def bind_result_Inr_iff)
  define P where "P = (\<lambda>t. enc_inv (s * m) t \<and> enc_order_in p t)"
  have P0: "P st" using inv ord by (auto simp: P_def enc_order_def enc_order_in_def)
  have "P st1"
  proof (rule fold_result_inv[where P = P, OF f P0])
    fix i t t' assume i: "i \<in> set [0..<m]" and Pt: "P t" and b: "encode_bit X s p l i t = Inr t'"
    show "P t'"
    proof (rule encode_bit_inv[where P = P and m = m, OF b Pt])
      show "i < m" using i by simp
    next
      fix x u u' assume "x < s * m" "P u" "emit_train p x u = Inr u'"
      then show "P u'"
        unfolding P_def using emit_train_enc_inv emit_train_order_in[OF _ nj isi] by blast
    qed
  qed
  then have o1: "enc_order_in p st1" by (simp add: P_def)
  have pos: "0 \<le> real (burst_size p - 1) * isi p" using isi by simp
  have "\<forall>(t1, k1)\<in>set (spikes (enc_T st1) (enc_K st1)).
          k1 < enc_sIdx st1 + 1 \<and> t1 < enc_t st1 + time_window p"
    using o1 win pos unfolding enc_order_in_def by fastforce
  with o1 show ?thesis by (simp add: st' enc_order_def enc_order_in_def)
qed

lemma encode_params_order:
  assumes e: "encode_params X m s k d p st = Inr st'"
    and nj: "sigma_t p = 0" "sigma_t_offs p = 0"
    and isi: "0 \<le> isi p" and win: "real (burst_size p - 1) * isi p < time_window p"
    and d: "0 \<le> d"
    and inv: "enc_inv (s * m) st" and ord: "enc_order st"
  shows "enc_inv (s * m) st' \<and> enc_order st'"
proof -
  from e obtain st1 where f: "fold_result (encode_sample X m s p) [0..<k] st = Inr st1"
    and st': "st' = st1\<lparr>enc_t := enc_t st1 + time_window p * d\<rparr>"
    by (auto simp: encode_params_def bind_result_Inr_iff)
  define P where "P = (\<lambda>t. enc_inv (s * m) t \<and> enc_order t)"
  have P0: "P st" using inv ord by (simp add: P_def)
  have "P st1"
  proof (rule fold_result_inv[where P = P, OF f P0])
    fix l t t' assume "l \<in> set [0..<k]" and Pt: "P t"
      and b: "encode_sample X m s p l t = Inr t'"
    show "P t'"
      unfolding P_def
      using encode_sample_enc_inv[OF b] encode_sample_order[OF b nj isi win] Pt
      by (simp add: P_def)
  qed
  then have i1: "enc_inv (s * m) st1" and o1: "enc_order st1" by (simp_all add: P_def)
  have "0 \<le> real (burst_size p - 1) * isi p" using isi by simp
  with win have "0 \<le> time_window p * d" using d by simp
  then have "\<forall>(t1, k1)\<in>set (spikes (enc_T st1) (enc_K st1)).
          k1 < enc_sIdx st1 \<and> t1 < enc_t st1 + time_window p * d"
    using o1 unfolding enc_order_def by fastforce
  with o1 have "enc_order st'" by (simp add: st' enc_order_def)
  moreover have "enc_inv (s * m) st'"
    using i1 by (simp add: st' enc_inv_def split: option.splits)
  ultimately show ?thesis by simp
qed

lemma spikes_replicate_Nil: "spikes (replicate n []) (replicate n []) = []"
  by (simp add: spikes_def zip_replicate)

lemma encode_loops_order:
  assumes e: "encode_loops b k s ps d g = Inr st"
    and nj: "\<forall>p\<in>set ps. sigma_t p = 0 \<and> sigma_t_offs p = 0"
    and tm: "\<forall>p\<in>set ps. 0 \<le> isi p \<and> real (burst_size p - 1) * isi p < time_window p"
    and d: "0 \<le> d"
  shows "enc_order st"
proof -
  define P where "P = (\<lambda>t. enc_inv (s * nb_m b) t \<and> enc_order t)"
  have "P st"
  proof (rule fold_result_inv[where P = P, OF e[unfolded encode_loops_def]])
    show "P \<lparr>enc_T = replicate (s * nb_m b) [], enc_K = replicate (s * nb_m b) [],
             enc_t = 0, enc_sIdx = 0, enc_min_t = None, enc_rng = g\<rparr>"
      by (simp add: P_def enc_inv_def enc_order_def samples_ordered_def spikes_replicate_Nil
          parallel_def list_all2_conv_all_nth)
  next
    fix p t t' assume p: "p \<in> set ps" and Pt: "P t"
      and en: "encode_params (mat_in b) (nb_m b) s k d p t = Inr t'"
    from p nj tm have a: "sigma_t p = 0" "sigma_t_offs p = 0" "0 \<le> isi p"
      "real (burst_size p - 1) * isi p < time_window p" by auto
    from encode_params_order[OF en a d] Pt show "P t'" by (simp add: P_def)
  qed
  then show ?thesis by (simp add: P_def)
qed

lemma build_input_spikes:
  assumes "build_input b k time_offs s ps d g = Inr ((tms, ixs, spl), g')"
  shows "\<exists>st. encode_loops b (clamp_k b k) s ps d g = Inr st
           \<and> set (spikes tms ixs)
             = (\<lambda>e. (shift_time (enc_min_t st) time_offs (fst e), snd e))
                 ` set (spikes (enc_T st) (enc_K st))"
proof -
  from build_input_Inr[OF assms] obtain st
    where enc: "encode_loops b (clamp_k b k) s ps d g = Inr st"
      and tms: "tms = map (\<lambda>row. map (\<lambda>i. row ! i) (argsort row))
                         (map (map (shift_time (enc_min_t st) time_offs)) (enc_T st))"
      and ixs: "ixs = map2 (\<lambda>row krow. map (\<lambda>i. krow ! i) (argsort row))
                         (map (map (shift_time (enc_min_t st) time_offs)) (enc_T st)) (enc_K st)"
    by blast
  define f where "f = shift_time (enc_min_t st) time_offs"
  define R where "R = s * nb_m b"
  from encode_loops_enc_inv[OF enc] have len: "length (enc_T st) = R" "length (enc_K st) = R"
    by (simp_all add: enc_inv_def R_def)
  have lt: "length tms = R" "length ixs = R" by (simp_all add: tms ixs len)
  have row: "set (zip (tms ! x) (ixs ! x))
           = (\<lambda>e. (f (fst e), snd e)) ` set (zip (enc_T st ! x) (enc_K st ! x))" if "x < R" for x
  proof -
    from that have x: "x < s * nb_m b" by (simp add: R_def)
    have "zip (tms ! x) (ixs ! x)
        = sort_key fst (zip (map (map f) (enc_T st) ! x) (enc_K st ! x))"
      unfolding tms ixs f_def by (rule build_input_rows(1)[OF enc x])
    then have "set (zip (tms ! x) (ixs ! x)) = set (zip (map f (enc_T st ! x)) (enc_K st ! x))"
      using that len by simp
    also have "zip (map f (enc_T st ! x)) (enc_K st ! x)
             = map (\<lambda>e. (f (fst e), snd e)) (zip (enc_T st ! x) (enc_K st ! x))"
      by (simp add: zip_map1 case_prod_unfold)
    finally show ?thesis by simp
  qed
  have "set (spikes tms ixs) = (\<Union>x<R. set (zip (tms ! x) (ixs ! x)))"
    by (simp add: set_spikes_nth lt)
  also have "\<dots> = (\<Union>x<R. (\<lambda>e. (f (fst e), snd e)) ` set (zip (enc_T st ! x) (enc_K st ! x)))"
    using row by simp
  also have "\<dots> = (\<lambda>e. (f (fst e), snd e)) ` (\<Union>x<R. set (zip (enc_T st ! x) (enc_K st ! x)))"
    by blast
  also have "(\<Union>x<R. set (zip (enc_T st ! x) (enc_K st ! x))) = set (spikes (enc_T st) (enc_K st))"
    by (simp add: set_spikes_nth len)
  finally show ?thesis using enc by (auto simp: f_def)
qed

lemma build_input_samples_ordered:
  assumes bi: "build_input b k time_offs s ps d g = Inr ((tms, ixs, spl), g')"
    and nj: "\<forall>p\<in>set ps. sigma_t p = 0 \<and> sigma_t_offs p = 0"
    and tm: "\<forall>p\<in>set ps. 0 \<le> isi p \<and> real (burst_size p - 1) * isi p < time_window p"
    and d: "0 \<le> d"
  shows "samples_ordered (spikes tms ixs)"
proof -
  from build_input_spikes[OF bi] obtain st
    where enc: "encode_loops b (clamp_k b k) s ps d g = Inr st"
      and sp: "set (spikes tms ixs)
             = (\<lambda>e. (shift_time (enc_min_t st) time_offs (fst e), snd e))
                 ` set (spikes (enc_T st) (enc_K st))" by blast
  from encode_loops_order[OF enc nj tm d]
  have so: "samples_ordered (spikes (enc_T st) (enc_K st))" by (simp add: enc_order_def)
  have mono: "u < v \<Longrightarrow> shift_time (enc_min_t st) time_offs u < shift_time (enc_min_t st) time_offs v"
    for u v by (simp add: shift_time_def split: option.splits)
  have "fst a < fst c"
    if "a \<in> set (spikes tms ixs)" "c \<in> set (spikes tms ixs)" "snd a < snd c" for a c
  proof -
    from that(1,2) sp obtain a' c' where a': "a' \<in> set (spikes (enc_T st) (enc_K st))"
      "a = (shift_time (enc_min_t st) time_offs (fst a'), snd a')"
      and c': "c' \<in> set (spikes (enc_T st) (enc_K st))"
      "c = (shift_time (enc_min_t st) time_offs (fst c'), snd c')" by auto
    from that(3) a'(2) c'(2) have "snd a' < snd c'" by simp
    with so a'(1) c'(1) have "fst a' < fst c'"
      unfolding samples_ordered_def by (metis (mono_tags, lifting) case_prodD prod.collapse)
    then show ?thesis using mono a'(2) c'(2) by simp
  qed
  then show ?thesis unfolding samples_ordered_def by fastforce
qed

subsection \<open>Training state and zero samples\<close>

lemma build_topology_reset_not_retrained:
  assumes "mem b = Some W" and "clamp_k b k < last_k b"
  shows "mem (fst (build_topology b k s w)) = Some (BiNAM (nb_m b) (nb_n b))"
    and "last_k (fst (build_topology b k s w)) = clamp_k b k"
  using assms by (simp_all add: build_topology_def Let_def)

lemma build_topology_trains_forward:
  assumes "mem b = Some W" and "last_k b \<le> clamp_k b k"
  shows "mem (fst (build_topology b k s w))
         = Some (fold (\<lambda>l W. train W (mat_in b ! l) (mat_out b ! l)) [last_k b..<clamp_k b k] W)"
  using assms by (simp add: build_topology_def Let_def)

lemma encode_params_zero_samples:
  "encode_params X m s 0 d p st = Inr (st\<lparr>enc_t := enc_t st + time_window p * d\<rparr>)"
  by (simp add: encode_params_def)

lemma build_input_zero_samples_raises:
  assumes "clamp_k b k = 0"
  shows "build_input b k time_offs s ps d g = Inl ValueError"
proof -
  have "\<exists>st. encode_loops b 0 s ps d g = Inr st"
    unfolding encode_loops_def by (rule fold_result_total) (simp add: encode_params_zero_samples)
  then obtain st where "encode_loops b 0 s ps d g = Inr st" by blast
  with assms show ?thesis by (simp add: build_input_def Let_def)
qed

section \<open>Claims about the matcher\<close>

text \<open>
  Claim C2, as stated: the sample index of an output spike at time \<open>t\<close> is that of the
  most recent input spike at or before \<open>t\<close>, an input spike at exactly \<open>t\<close> counting as
  preceding.  It fails: with input spikes at times 0 (sample 0) and 100 (sample 1), an
  output spike at time 100 is assigned sample 0, because \<open>bisect_left\<close> finds the first
  input at or after \<open>t\<close> and the code steps one position back.
\<close>

theorem match_static_inclusive_counterexample:
  "match_static [[0, 100]] [[0, 1]] [None, Some [[100]]] = Inr ([[100]], [[0]])
   \<and> \<not> most_recent_at_or_before (spikes [[0, 100]] [[0, 1]]) 100 0"
proof
  show "match_static [[0, 100]] [[0, 1]] [None, Some [[100]]] = Inr ([[100]], [[0]])"
    by code_simp
  show "\<not> most_recent_at_or_before (spikes [[0, 100]] [[0, 1]]) 100 0"
    by (simp add: most_recent_at_or_before_def spikes_def)
qed

text \<open>
  Claim C2, amended: for every decode call and every output spike at time \<open>t\<close> that has at
  least one input spike strictly before it, the assigned sample index is the sample
  index of a most recent input spike strictly before \<open>t\<close>, over all input units pooled;
  an input spike at exactly \<open>t\<close> does not count as preceding.
\<close>

theorem match_static_most_recent_strictly_before:
  assumes "match_static input_times input_indices output = Inr (output_times, output_indices)"
    and "u < length output_times" and "j < length (output_times ! u)"
    and "\<exists>(t0, k0)\<in>set (spikes input_times input_indices). t0 < output_times ! u ! j"
  shows "most_recent_before (spikes input_times input_indices)
           (output_times ! u ! j) (output_indices ! u ! j)"
proof -
  from match_static_Inr[OF assms(1)] obtain tIn kIn nIn
    where fl: "flaten input_times input_indices False = Inr (tIn, kIn, nIn)"
      and oi: "output_indices = map (map (match_index tIn kIn)) output_times" by blast
  have "output_indices ! u ! j = match_index tIn kIn (output_times ! u ! j)"
    using assms(2,3) by (simp add: oi)
  with decode_before[OF fl assms(4)] show ?thesis by simp
qed

theorem match_static_most_recent_strictly_before_witness:
  "match_static [[0, 100], [0]] [[0, 1], [0]] [None, None, Some [[50, 100, 130]]]
     = Inr ([[50, 100, 130]], [[0, 0, 1]])
   \<and> most_recent_before (spikes [[0, 100], [0]] [[0, 1], [0]]) 130 1"
proof -
  have e: "match_static [[0, 100], [0]] [[0, 1], [0]] [None, None, Some [[50, 100, 130]]]
             = Inr ([[50, 100, 130]], [[0, 0, 1]])"
    by code_simp
  have h: "\<exists>(t0, k0)\<in>set (spikes [[0, 100], [0]] [[0, 1], [0]]). t0 < [[50, 100, 130]] ! 0 ! 2"
    by (simp add: spikes_def)
  from match_static_most_recent_strictly_before[OF e _ _ h] e show ?thesis by simp
qed

text \<open>
  Claim C6, as stated: an output spike that precedes every input spike is assigned sample
  index 0.  It fails: the single input spike is at time 100 and belongs to sample 1; the
  output spike at time 50 precedes it and is assigned sample 1.
\<close>

theorem match_static_default_zero_counterexample:
  "match_static [[100]] [[1]] [None, Some [[50]]] = Inr ([[50]], [[1]])
   \<and> (50::real) < 100 \<and> (1::int) \<noteq> 0"
proof -
  have "match_static [[100]] [[1]] [None, Some [[50]]] = Inr ([[50]], [[1]])"
    by code_simp
  then show ?thesis by simp
qed

text \<open>
  Claim C6, amended: when there is at least one input unit, the time and index lists are
  parallel and every output population has recorded spikes, decoding raises no error,
  and every output spike that is not after any input spike is assigned the sample index
  of an earliest input spike (the first entry of the pooled, time-sorted inputs), or 0
  when the input units carry no spike at all.
\<close>

theorem match_static_not_after_any_input:
  assumes "input_times \<noteq> []" and "parallel input_times input_indices"
    and "\<forall>p\<in>set (drop (length input_times) output). \<exists>x xs. p = Some (x # xs)"
  shows "\<exists>output_times output_indices.
           match_static input_times input_indices output = Inr (output_times, output_indices)
           \<and> (\<forall>u<length output_times. \<forall>j<length (output_times ! u).
                (\<forall>(t1, k1)\<in>set (spikes input_times input_indices). output_times ! u ! j \<le> t1)
                \<longrightarrow> (if spikes input_times input_indices = [] then output_indices ! u ! j = 0
                     else earliest (spikes input_times input_indices) (output_indices ! u ! j)))"
proof -
  from match_static_ok[OF assms] obtain ot oi
    where m: "match_static input_times input_indices output = Inr (ot, oi)" by blast
  from match_static_Inr[OF m] obtain tIn kIn nIn
    where fl: "flaten input_times input_indices False = Inr (tIn, kIn, nIn)"
      and oi: "oi = map (map (match_index tIn kIn)) ot" by blast
  have "\<forall>u<length ot. \<forall>j<length (ot ! u).
          (\<forall>(t1, k1)\<in>set (spikes input_times input_indices). ot ! u ! j \<le> t1)
          \<longrightarrow> (if spikes input_times input_indices = [] then oi ! u ! j = 0
               else earliest (spikes input_times input_indices) (oi ! u ! j))"
  proof (intro allI impI)
    fix u j assume u: "u < length ot" and j: "j < length (ot ! u)"
      and all: "\<forall>(t1, k1)\<in>set (spikes input_times input_indices). ot ! u ! j \<le> t1"
    have "oi ! u ! j = match_index tIn kIn (ot ! u ! j)" using u j by (simp add: oi)
    with decode_first[OF fl all]
    show "if spikes input_times input_indices = [] then oi ! u ! j = 0
          else earliest (spikes input_times input_indices) (oi ! u ! j)" by simp
  qed
  with m show ?thesis by blast
qed

theorem match_static_not_after_any_input_witness:
  "match_static [[100], []] [[1], []] [None, None, Some [[50]]] = Inr ([[50]], [[1]])
   \<and> earliest (spikes [[100], []] [[1], []]) 1
   \<and> match_static [[]] [[]] [None, Some [[50]]] = Inr ([[50]], [[0]])"
proof -
  have p1: "parallel [[100::real], []] [[1::int], []]" by (simp add: parallel_def)
  have o1: "\<forall>p\<in>set (drop (length [[100::real], []]) [None, None, Some [[50::real]]]).
              \<exists>x xs. p = Some (x # xs)" by simp
  have e1: "match_static [[100], []] [[1], []] [None, None, Some [[50]]] = Inr ([[50]], [[1]])"
    by code_simp
  have s1: "spikes [[100], []] [[1], []] \<noteq> []" by (simp add: spikes_def)
  have a1: "\<forall>(t1, k1)\<in>set (spikes [[100], []] [[1], []]). [[50::real]] ! 0 ! 0 \<le> t1"
    by (simp add: spikes_def)
  from match_static_not_after_any_input[OF _ p1 o1] e1 s1 a1
  have "earliest (spikes [[100], []] [[1], []]) 1" by simp
  moreover have "match_static [[]] [[]] [None, Some [[50]]] = Inr ([[50]], [[0]])"
    by code_simp
  ultimately show ?thesis using e1 by simp
qed

section \<open>Claim about the pool\<close>

text \<open>
  Claim C5: for a pool built by adding the networks \<open>A\<close> and \<open>B\<close> to an empty pool, the
  pool's analysis of the concatenated simulator output (one entry per population) is
  the analysis of \<open>A\<close> on its own output followed by the analysis of \<open>B\<close> on its own
  output, as lists and hence as sets; each analysis matches the network's outputs
  against its own inputs and cuts inputs and matched outputs at the sample-index cut
  points, keeping in each partition the spikes with index in \<open>[k0, k1)\<close> and subtracting
  \<open>k0\<close> from their indices (\<open>independent_analysis\<close>, \<open>temporal_partition\<close>).  An error
  of either analysis is the error of the pool's.
\<close>

theorem pool_analysis_is_independent_analysis:
  assumes "parallel (ni_input_times A) (ni_input_indices A)"
    and "parallel (ni_input_times B) (ni_input_indices B)"
    and "length outA = length (ni_populations A)"
    and "length outB = length (ni_populations B)"
  shows "pool_build_analysis (add_network (add_network network_pool_init A) B) (outA @ outB)
         = bind_result (independent_analysis A outA) (\<lambda>ra.
           bind_result (independent_analysis B outB) (\<lambda>rb. Inr (ra @ rb)))"
proof -
  have "length (ni_input_indices A) = length (ni_input_times A)"
    using assms(1) by (simp add: parallel_def list_all2_lengthD)
  moreover have "length (ni_input_indices B) = length (ni_input_times B)"
    using assms(2) by (simp add: parallel_def list_all2_lengthD)
  ultimately show ?thesis
    using pool_of_two[of A B outA outB] assms(3,4)
    by (simp add: build_analysis_independent[OF assms(1)] build_analysis_independent[OF assms(2)])
qed

theorem pool_analysis_is_independent_analysis_witness:
  "pool_build_analysis
     (add_network (add_network network_pool_init
        \<lparr>ni_populations = [(), ()], ni_connections = [((0, 0), (1, 0), 1, 0)],
         ni_input_times = [[0, 100]], ni_input_indices = [[0, 1]], ni_input_split = [2]\<rparr>)
        \<lparr>ni_populations = [(), ()], ni_connections = [((0, 0), (1, 0), 1, 0)],
         ni_input_times = [[0, 50]], ni_input_indices = [[0, 1]], ni_input_split = [1, 2]\<rparr>)
     ([None, Some [[3, 120]]] @ [None, Some [[10, 60]]])
   = Inr [\<lparr>na_input_times = [[0, 100]], na_input_indices = [[0, 1]],
           na_output_times = [[3, 120]], na_output_indices = [[0, 1]]\<rparr>,
          \<lparr>na_input_times = [[0]], na_input_indices = [[0]],
           na_output_times = [[10]], na_output_indices = [[0]]\<rparr>,
          \<lparr>na_input_times = [[50]], na_input_indices = [[0]],
           na_output_times = [[60]], na_output_indices = [[0]]\<rparr>]"
proof -
  let ?A = "\<lparr>ni_populations = [(), ()], ni_connections = [((0, 0), (1, 0), 1, 0)],
         ni_input_times = [[0, 100]], ni_input_indices = [[0, 1]], ni_input_split = [2]\<rparr>"
  let ?B = "\<lparr>ni_populations = [(), ()], ni_connections = [((0, 0), (1, 0), 1, 0)],
         ni_input_times = [[0, 50]], ni_input_indices = [[0, 1]], ni_input_split = [1, 2]\<rparr>"
  have pA: "parallel (ni_input_times ?A) (ni_input_indices ?A)" by (simp add: parallel_def)
  have pB: "parallel (ni_input_times ?B) (ni_input_indices ?B)" by (simp add: parallel_def)
  have lA: "length [None, Some [[3::real, 120]]] = length (ni_populations ?A)" by simp
  have lB: "length [None, Some [[10::real, 60]]] = length (ni_populations ?B)" by simp
  have rhs: "bind_result (independent_analysis ?A [None, Some [[3, 120]]]) (\<lambda>ra.
             bind_result (independent_analysis ?B [None, Some [[10, 60]]]) (\<lambda>rb. Inr (ra @ rb)))
           = Inr [\<lparr>na_input_times = [[0, 100]], na_input_indices = [[0, 1]],
                   na_output_times = [[3, 120]], na_output_indices = [[0, 1]]\<rparr>,
                  \<lparr>na_input_times = [[0]], na_input_indices = [[0]],
                   na_output_times = [[10]], na_output_indices = [[0]]\<rparr>,
                  \<lparr>na_input_times = [[50]], na_input_indices = [[0]],
                   na_output_times = [[60]], na_output_indices = [[0]]\<rparr>]"
    by code_simp
  show ?thesis
    by (rule trans[OF pool_analysis_is_independent_analysis[OF pA pB lA lB] rhs])
qed

section \<open>Claim about the output matrix\<close>

text \<open>
  Claim C4, as stated: the entry for sample \<open>k\<close> and output unit \<open>j\<close> is the spike count
  divided by the multiplicity and then by the burst size.  It fails: with multiplicity 2
  and both neurons of unit 0 firing once for sample 0, the entry is 2, not 2 / 2 / 1.
  The multiplicity only selects the column (\<open>nOut[i] // s\<close>); the count is not divided
  by it.
\<close>

theorem calculate_output_matrix_divides_by_multiplicity_counterexample:
  "calculate_output_matrix
     \<lparr>na_input_times = [[0]], na_input_indices = [[0]],
      na_output_times = [[1], [1]], na_output_indices = [[0], [0]]\<rparr> 2 1 = Inr [[2]]
   \<and> real (unit_spike_count [[0], [0]] 2 0 0) / real 2 / real 1 = 1"
proof
  show "calculate_output_matrix
     \<lparr>na_input_times = [[0]], na_input_indices = [[0]],
      na_output_times = [[1], [1]], na_output_indices = [[0], [0]]\<rparr> 2 1 = Inr [[2]]"
    by code_simp
  show "real (unit_spike_count [[0], [0]] 2 0 0) / real 2 / real 1 = 1"
    by (simp add: unit_spike_count_def)
qed

text \<open>
  Claim C4, amended: for every analysis unit with at least one output unit and one input
  unit, parallel output lists, \<open>n * s\<close> output neurons, multiplicity \<open>s \<ge> 1\<close>, burst size
  \<open>\<ge> 1\<close>, and output sample indices that do not decrease along the time order (as the
  matcher produces them for inputs in sample order), the output matrix is computed
  without error, has one row per sample and \<open>n\<close> columns, and its entry for sample \<open>k\<close>
  and output unit \<open>j\<close> is the number of matched output spikes of sample \<open>k\<close> on the
  neurons of unit \<open>j\<close>, divided by the burst size only.
\<close>

theorem calculate_output_matrix_counts:
  assumes "1 \<le> s" and "1 \<le> output_burst_size"
    and "na_output_times a \<noteq> []" and "na_input_indices a \<noteq> []"
    and "parallel (na_output_times a) (na_output_indices a)"
    and "length (na_output_indices a) = n * s"
    and "samples_in_time_order (na_output_times a) (na_output_indices a)"
  shows "\<exists>M. calculate_output_matrix a s output_burst_size = Inr M
           \<and> length M = nat (sample_count (na_input_indices a))
           \<and> (\<forall>k j. 0 \<le> k \<and> k < sample_count (na_input_indices a) \<and> j < n \<longrightarrow>
                 length (M ! nat k) = n
                 \<and> M ! nat k ! j
                   = real (unit_spike_count (na_output_indices a) s k j) / real output_burst_size)"
proof -
  define N where "N = sample_count (na_input_indices a)"
  define M where "M = map (\<lambda>k. map (\<lambda>j. real (unit_spike_count (na_output_indices a) s k j)
                                        / real output_burst_size) [0..<n]) [0..N - 1]"
  from assms(1) have s: "0 < s" by simp
  have calc: "calculate_output_matrix a s output_burst_size = Inr M"
    unfolding M_def N_def
    by (rule calculate_output_matrix_sorted[OF s assms(3,4,5,6,7)])
  have len: "length M = nat N" by (simp add: M_def)
  have "length (M ! nat k) = n
        \<and> M ! nat k ! j = real (unit_spike_count (na_output_indices a) s k j) / real output_burst_size"
    if "0 \<le> k" "k < N" "j < n" for k j
  proof -
    have "nat k < length [0..N - 1]" using that by simp
    moreover have "[0..N - 1] ! nat k = k" using that by (simp add: nth_upto)
    ultimately show ?thesis using that(3) by (simp add: M_def)
  qed
  with calc len show ?thesis unfolding N_def by blast
qed

theorem calculate_output_matrix_counts_witness:
  "calculate_output_matrix
     \<lparr>na_input_times = [[0, 100]], na_input_indices = [[0, 1]],
      na_output_times = [[1], [1, 101]], na_output_indices = [[0], [0, 1]]\<rparr> 2 1
     = Inr [[2], [1]]
   \<and> [[2], [1::real]] ! nat 0 ! 0 = real (unit_spike_count [[0], [0, 1]] 2 0 0) / real 1
   \<and> unit_spike_count [[0], [0, 1]] 2 0 0 = 2"
proof -
  let ?a = "\<lparr>na_input_times = [[0, 100]], na_input_indices = [[0, 1]],
      na_output_times = [[1], [1, 101]], na_output_indices = [[0], [0, 1]]\<rparr>"
  have h: "(1::nat) \<le> 2" "(1::nat) \<le> 1" "na_output_times ?a \<noteq> []" "na_input_indices ?a \<noteq> []"
    "length (na_output_indices ?a) = 1 * 2" by simp_all
  have p: "parallel (na_output_times ?a) (na_output_indices ?a)" by (simp add: parallel_def)
  have o: "samples_in_time_order (na_output_times ?a) (na_output_indices ?a)" by code_simp
  have sc: "sample_count (na_input_indices ?a) = 2" by (simp add: sample_count_def)
  have e: "calculate_output_matrix ?a 2 1 = Inr [[2], [1]]" by code_simp
  from calculate_output_matrix_counts[OF h(1,2,3,4) p h(5) o] e sc
  have "[[2], [1::real]] ! nat 0 ! 0 = real (unit_spike_count (na_output_indices ?a) 2 0 0) / real 1"
    by auto
  moreover have "unit_spike_count [[0], [0, 1]] 2 0 0 = 2" by code_simp
  ultimately show ?thesis using e by simp
qed

section \<open>Claims about the encoder\<close>



text \<open>
  Claim C1, as stated: with jitter disabled, looking up the time of an encoded spike as
  an output time recovers the spike's sample index.  It fails: two samples with one input
  bit, default parameters, give spikes at 0 (sample 0) and 100 (sample 1); the time 100
  is matched to sample 0, because the matcher takes the latest input spike strictly
  before the output time.
\<close>

theorem round_trip_exact_time_counterexample:
  "(case build_input
           \<lparr>nb_N = 2, nb_m = 1, nb_n = 1, mat_in = [[1], [1]], mat_out = [[1], [1]],
            mem = None, last_k = 0\<rparr> (- 1) 0 1 [input_parameters_default] 10 (\<lambda>n. 0)
    of Inl e \<Rightarrow> None | Inr r \<Rightarrow> Some (fst r))
   = Some ([[0, 100]], [[0, 1]], [2])
   \<and> match_static [[0, 100]] [[0, 1]] [None, Some [[100]]] = Inr ([[100]], [[0]])"
  by code_simp

text \<open>
  Claim C1, amended: for every matrix encoded with jitter disabled, a non-negative
  inter-spike interval, bursts shorter than the time window
  (\<open>(burst_size - 1) * isi < time_window\<close>) and a non-negative delay between parameter
  sets, decoding with the matcher recovers the pairing for every output spike that
  follows an encoded spike: if the output time is strictly after the time of an encoded
  spike of sample \<open>k\<close> and not after any encoded spike of a later sample, the recovered
  sample index is \<open>k\<close>.
\<close>

theorem round_trip_after_spike:
  assumes "build_input b k time_offs s ps d g = Inr ((tms, ixs, spl), g')"
    and "\<forall>p\<in>set ps. sigma_t p = 0 \<and> sigma_t_offs p = 0"
    and "\<forall>p\<in>set ps. 0 \<le> isi p \<and> real (burst_size p - 1) * isi p < time_window p"
    and "0 \<le> d"
    and "match_static tms ixs output = Inr (ot, oi)"
    and "(t, c) \<in> set (spikes tms ixs)"
    and "u < length ot" and "j < length (ot ! u)"
    and "t < ot ! u ! j"
    and "\<forall>(t1, k1)\<in>set (spikes tms ixs). c < k1 \<longrightarrow> ot ! u ! j \<le> t1"
  shows "oi ! u ! j = c"
proof -
  from match_static_Inr[OF assms(5)] obtain tIn kIn nIn
    where fl: "flaten tms ixs False = Inr (tIn, kIn, nIn)"
      and oi: "oi = map (map (match_index tIn kIn)) ot" by blast
  have m: "oi ! u ! j = match_index tIn kIn (ot ! u ! j)" using assms(7,8) by (simp add: oi)
  have ex: "\<exists>(t0, k0)\<in>set (spikes tms ixs). t0 < ot ! u ! j" using assms(6,9) by auto
  from decode_before[OF fl ex] m obtain t0 k0
    where b: "(t0, k0) \<in> set (spikes tms ixs)" "t0 < ot ! u ! j"
      "\<forall>(t1, k1)\<in>set (spikes tms ixs). t1 < ot ! u ! j \<longrightarrow> t1 \<le> t0" "oi ! u ! j = k0"
    unfolding most_recent_before_def by auto
  from b(3) assms(6,9) have le: "t \<le> t0" by auto
  have so: "samples_ordered (spikes tms ixs)"
    by (rule build_input_samples_ordered[OF assms(1,2,3,4)])
  have "\<not> c < k0" using assms(10) b(1,2) by auto
  moreover have "\<not> k0 < c"
  proof
    assume "k0 < c"
    with so b(1) assms(6) have "t0 < t" unfolding samples_ordered_def by blast
    with le show False by simp
  qed
  ultimately show ?thesis using b(4) by simp
qed

theorem round_trip_after_spike_witness:
  "(case build_input
           \<lparr>nb_N = 2, nb_m = 1, nb_n = 1, mat_in = [[1], [1]], mat_out = [[1], [1]],
            mem = None, last_k = 0\<rparr> (- 1) 0 1 [input_parameters_default] 10 (\<lambda>n. 0)
    of Inl e \<Rightarrow> None | Inr r \<Rightarrow> Some (fst r))
   = Some ([[0, 100]], [[0, 1]], [2])
   \<and> match_static [[0, 100]] [[0, 1]] [None, Some [[100, 101]]] = Inr ([[100, 101]], [[0, 1]])
   \<and> [[0, 1]] ! 0 ! 1 = (1::int)"
proof -
  let ?b = "\<lparr>nb_N = 2, nb_m = 1, nb_n = 1, mat_in = [[1], [1]], mat_out = [[1], [1]],
            mem = None, last_k = 0\<rparr>"
  have e: "(case build_input ?b (- 1) 0 1 [input_parameters_default] 10 (\<lambda>n. 0)
            of Inl e \<Rightarrow> None | Inr r \<Rightarrow> Some (fst r))
           = Some ([[0, 100]], [[0, 1]], [2])"
    by code_simp
  then obtain g' where bi: "build_input ?b (- 1) 0 1 [input_parameters_default] 10 (\<lambda>n. 0)
      = Inr (([[0, 100]], [[0, 1]], [2]), g')"
    by (cases "build_input ?b (- 1) 0 1 [input_parameters_default] 10 (\<lambda>n. 0)") auto
  have nj: "\<forall>p\<in>set [input_parameters_default]. sigma_t p = 0 \<and> sigma_t_offs p = 0"
    and tm: "\<forall>p\<in>set [input_parameters_default].
               0 \<le> isi p \<and> real (burst_size p - 1) * isi p < time_window p"
    and d: "(0::real) \<le> 10"
    by (simp_all add: input_parameters_default_def)
  have ms: "match_static [[0, 100]] [[0, 1]] [None, Some [[100, 101]]]
              = Inr ([[100, 101]], [[0, 1]])"
    by code_simp
  have sp: "(100, 1) \<in> set (spikes [[0, 100]] [[0, 1]])" by (simp add: spikes_def)
  have later: "\<forall>(t1, k1)\<in>set (spikes [[0, 100]] [[0, 1]]). 1 < k1 \<longrightarrow> [[100, 101]] ! 0 ! 1 \<le> t1"
    by (simp add: spikes_def)
  have r: "[[0, 1]] ! 0 ! 1 = (1::int)"
    by (rule round_trip_after_spike[OF bi nj tm d ms sp _ _ _ later]) simp_all
  show ?thesis by (intro conjI) (rule e, rule ms, rule r)
qed

section \<open>Claims about seeding, training and degenerate inputs\<close>

text \<open>
  Claim C10: \<open>initialize_seed\<close> with seed \<open>None\<close> returns \<open>None\<close> and leaves the generator
  unchanged; with a seed it installs the state seeded with \<open>(seed * (seq + 1)) mod 2^30\<close>
  and returns the prior state; \<open>finalize_seed\<close> applied to the returned value restores
  the state from before \<open>initialize_seed\<close>, whatever the generator did in between
  (\<open>st'\<close>), and \<open>finalize_seed(None)\<close> changes nothing.
\<close>

theorem seed_save_restore:
  "initialize_seed np_seed None seq st = (None, st)
   \<and> initialize_seed np_seed (Some seed) seq st = (Some st, np_seed ((seed * (seq + 1)) mod 2 ^ 30))
   \<and> finalize_seed (fst (initialize_seed np_seed (Some seed) seq st)) st' = st
   \<and> finalize_seed None st' = st'
   \<and> finalize_seed (fst (initialize_seed np_seed None seq st)) st' = st'"
  by (simp add: initialize_seed_def finalize_seed_def)

theorem seed_save_restore_witness:
  "initialize_seed (\<lambda>n. [n]) (Some 3) 1 [7] = (Some [7], [6])
   \<and> finalize_seed (fst (initialize_seed (\<lambda>n. [n]) (Some 3) 1 [7])) [6, 6] = [7]"
proof -
  note t = seed_save_restore[of "\<lambda>n. [n]" 1 "[7]" 3 "[6, 6]"]
  from t have "initialize_seed (\<lambda>n. [n]) (Some 3) 1 [7] = (Some [7], [3 * (1 + 1) mod 2 ^ 30])"
    by blast
  moreover from t
  have "finalize_seed (fst (initialize_seed (\<lambda>n. [n]) (Some 3) 1 [7])) [6, 6] = [7]"
    by blast
  ultimately show ?thesis by simp
qed

text \<open>
  Claim C7 says that a request for a \<open>k\<close> below \<open>last_k\<close> resets the memory and retrains
  it from sample 0 up to \<open>k\<close>.  The code resets the memory but keeps \<open>last_k\<close>, so the
  training loop \<open>xrange(last_k, k)\<close> is empty and the memory stays all zero.  With the
  samples \<open>[1,0] \<mapsto> [1,0]\<close> and \<open>[0,1] \<mapsto> [0,1]\<close>: training up to 2 and then asking for
  \<open>k = 1\<close> gives the zero matrix and no connection, while a fresh builder asked for
  \<open>k = 1\<close> holds the first sample.  (For every builder: \<open>build_topology_reset_not_retrained\<close>;
  a request for \<open>k \<ge> last_k\<close> continues the training, \<open>build_topology_trains_forward\<close>.)
\<close>

theorem build_topology_smaller_k_leaves_memory_empty:
  "mem (fst (build_topology
         (fst (build_topology
            \<lparr>nb_N = 2, nb_m = 2, nb_n = 2, mat_in = [[1, 0], [0, 1]], mat_out = [[1, 0], [0, 1]],
             mem = None, last_k = 0\<rparr> 2 1 1)) 1 1 1)) = Some [[0, 0], [0, 0]]
   \<and> snd (build_topology
         (fst (build_topology
            \<lparr>nb_N = 2, nb_m = 2, nb_n = 2, mat_in = [[1, 0], [0, 1]], mat_out = [[1, 0], [0, 1]],
             mem = None, last_k = 0\<rparr> 2 1 1)) 1 1 1) = []
   \<and> mem (fst (build_topology
            \<lparr>nb_N = 2, nb_m = 2, nb_n = 2, mat_in = [[1, 0], [0, 1]], mat_out = [[1, 0], [0, 1]],
             mem = None, last_k = 0\<rparr> 1 1 1)) = Some [[1, 0], [0, 0]]"
  by code_simp

text \<open>
  Claim C3 says that the latency of sample \<open>k\<close> is infinite exactly when the sample has no
  input spike or no matched output spike.  \<open>flaten\<close> with \<open>sort_by_sample\<close> sorts by time
  first (the last key of \<open>np.lexsort\<close>), so the sample indices it returns are only sorted
  when later samples have later spikes, and the \<open>bisect\<close> calls of
  \<open>calculate_latencies\<close> search an unsorted array otherwise.  Here two samples with one
  input bit are encoded with an offset jitter of 100 and the draws 2 and -1: the spike of
  sample 1 comes out at time 0 and the spike of sample 0 at time 200.  The matcher
  assigns the output spikes at 1 and 201 to the samples 1 and 0.  Sample 1 has an input
  spike and a matched output spike one time unit later, and its latency is reported as
  infinite.  When the sample indices do not decrease along the time order, the code
  does compute what the claim says (\<open>calculate_latencies_sample_order\<close>).
\<close>

theorem calculate_latencies_unsorted_samples:
  "(case build_input
           \<lparr>nb_N = 2, nb_m = 1, nb_n = 1, mat_in = [[1], [1]], mat_out = [[1], [1]],
            mem = None, last_k = 0\<rparr> (- 1) 0 1
           [\<lparr>burst_size = 1, time_window = 100, isi = 1, sigma_t = 0, sigma_t_offs = 100\<rparr>]
           10 (\<lambda>n. if n = 0 then 2 else - 1)
    of Inl e \<Rightarrow> None | Inr r \<Rightarrow> Some (fst r))
   = Some ([[0, 200]], [[1, 0]], [2])
   \<and> match_static [[0, 200]] [[1, 0]] [None, Some [[1, 201]]] = Inr ([[1, 201]], [[1, 0]])
   \<and> calculate_latencies
        \<lparr>na_input_times = [[0, 200]], na_input_indices = [[1, 0]],
         na_output_times = [[1, 201]], na_output_indices = [[1, 0]]\<rparr>
       = Inr [Latency 1, Infinite]"
  by code_simp

text \<open>
  Claim C9 says that empty matrices, zero samples and empty spike lists give empty
  results and never an error.  The matcher and the splitter do so, but encoding zero
  samples raises \<open>ValueError\<close> (\<open>range\<close> with step \<open>k = 0\<close>; for every builder and
  parameter list, see \<open>build_input_zero_samples_raises\<close>), the analysis of units without
  spikes raises \<open>ValueError\<close> (\<open>max\<close> of an empty list, where \<open>calculate_output_matrix\<close>
  guards the same maximum with \<open>ks + [0]\<close>), the latencies of a unit without input
  spikes raise \<open>ValueError\<close> (\<open>np.max\<close> of an empty array), and flattening no unit at all
  raises \<open>TypeError\<close>.
\<close>

theorem empty_inputs_raise:
  "build_input \<lparr>nb_N = 1, nb_m = 1, nb_n = 1, mat_in = [[1]], mat_out = [[1]],
                mem = None, last_k = 0\<rparr> 0 0 1 [input_parameters_default] 10 g
     = Inl ValueError
   \<and> match_static [[]] [[]] [None, Some [[]]] = Inr ([[]], [[]])
   \<and> split_part [[]] [[]] 0 1 = Inr ([[]], [[]])
   \<and> build_analysis_static [[]] [[]] [None, Some [[]]] [] = Inl ValueError
   \<and> calculate_latencies \<lparr>na_input_times = [[]], na_input_indices = [[]],
                          na_output_times = [[]], na_output_indices = [[]]\<rparr> = Inl ValueError
   \<and> flaten [] [] False = Inl TypeError"
proof (intro conjI)
  show "build_input \<lparr>nb_N = 1, nb_m = 1, nb_n = 1, mat_in = [[1]], mat_out = [[1]],
                mem = None, last_k = 0\<rparr> 0 0 1 [input_parameters_default] 10 g
     = Inl ValueError"
    by (simp add: build_input_def clamp_k_def encode_loops_def encode_params_def Let_def)
  show "match_static [[]] [[]] [None, Some [[]]] = Inr ([[]], [[]])" by code_simp
  show "split_part [[]] [[]] 0 1 = Inr ([[]], [[]])" by code_simp
  show "build_analysis_static [[]] [[]] [None, Some [[]]] [] = Inl ValueError" by code_simp
  show "calculate_latencies \<lparr>na_input_times = [[]], na_input_indices = [[]],
                          na_output_times = [[]], na_output_indices = [[]]\<rparr> = Inl ValueError"
    by code_simp
  show "flaten [] [] False = Inl TypeError" by code_simp
qed

end
